theory Spec2Isabelle
  imports Main
begin

section \<open>Python string primitives\<close>

text \<open>
  Strings are lists of characters. A \<^typ>\<open>char\<close> stands for one code point below 256
  (the Latin-1 range), which covers every literal the program compares against.
\<close>

text \<open>The characters for which Python's \<^verbatim>\<open>str.isspace\<close> holds (also the class \<^verbatim>\<open>\s\<close>).\<close>

definition py_whitespace :: "char list" where
  "py_whitespace =
     [CHR 0x20, CHR 0x09, CHR 0x0A, CHR 0x0B, CHR 0x0C, CHR 0x0D,
      CHR 0x1C, CHR 0x1D, CHR 0x1E, CHR 0x1F, CHR 0x85, CHR 0xA0]"

definition is_space :: "char \<Rightarrow> bool" where
  "is_space c = (c \<in> set py_whitespace)"

text \<open>\<^verbatim>\<open>s.strip()\<close> and \<^verbatim>\<open>s.strip(chars)\<close>.\<close>

definition strip_with :: "(char \<Rightarrow> bool) \<Rightarrow> string \<Rightarrow> string" where
  "strip_with p s = rev (dropWhile p (rev (dropWhile p s)))"

definition strip :: "string \<Rightarrow> string" where
  "strip s = strip_with is_space s"

definition strip_chars :: "string \<Rightarrow> string \<Rightarrow> string" where
  "strip_chars cs s = strip_with (\<lambda>c. c \<in> set cs) s"

text \<open>\<^verbatim>\<open>s.split(sep)\<close> for a separator of one character: never an empty list.\<close>

fun split_on :: "char \<Rightarrow> string \<Rightarrow> string list" where
  "split_on sep [] = [[]]"
| "split_on sep (c # cs) =
     (if c = sep then [] # split_on sep cs
      else (case split_on sep cs of
              [] \<Rightarrow> [[c]]
            | w # ws \<Rightarrow> (c # w) # ws))"

text \<open>\<^verbatim>\<open>s.startswith(p)\<close>.\<close>

definition startswith :: "string \<Rightarrow> string \<Rightarrow> bool" where
  "startswith s p = (take (length p) s = p)"

text \<open>\<^verbatim>\<open>p in s\<close> on strings: \<open>p\<close> occurs at some offset of \<open>s\<close>.\<close>

fun py_in :: "string \<Rightarrow> string \<Rightarrow> bool" where
  "py_in p [] = (p = [])"
| "py_in p (c # cs) = (startswith (c # cs) p \<or> py_in p cs)"

text \<open>\<^verbatim>\<open>sep.join(xs)\<close>.\<close>

fun join :: "string \<Rightarrow> string list \<Rightarrow> string" where
  "join sep [] = []"
| "join sep [x] = x"
| "join sep (x # y # ys) = x @ sep @ join sep (y # ys)"

text \<open>
  \<^verbatim>\<open>s.lower()\<close> and \<^verbatim>\<open>s.upper()\<close> on the Latin-1 range. The cased letters are
  listed pairwise: the ASCII letters, and \<open>0xC0..0xDE\<close> (without the sign \<open>0xD7\<close>)
  against \<open>0xE0..0xFE\<close> (without \<open>0xF7\<close>).
\<close>

definition upper_letters :: "char list" where
  "upper_letters = ''ABCDEFGHIJKLMNOPQRSTUVWXYZ'' @
     [CHR 0xC0, CHR 0xC1, CHR 0xC2, CHR 0xC3, CHR 0xC4, CHR 0xC5, CHR 0xC6, CHR 0xC7,
      CHR 0xC8, CHR 0xC9, CHR 0xCA, CHR 0xCB, CHR 0xCC, CHR 0xCD, CHR 0xCE, CHR 0xCF,
      CHR 0xD0, CHR 0xD1, CHR 0xD2, CHR 0xD3, CHR 0xD4, CHR 0xD5, CHR 0xD6,
      CHR 0xD8, CHR 0xD9, CHR 0xDA, CHR 0xDB, CHR 0xDC, CHR 0xDD, CHR 0xDE]"

definition lower_letters :: "char list" where
  "lower_letters = ''abcdefghijklmnopqrstuvwxyz'' @
     [CHR 0xE0, CHR 0xE1, CHR 0xE2, CHR 0xE3, CHR 0xE4, CHR 0xE5, CHR 0xE6, CHR 0xE7,
      CHR 0xE8, CHR 0xE9, CHR 0xEA, CHR 0xEB, CHR 0xEC, CHR 0xED, CHR 0xEE, CHR 0xEF,
      CHR 0xF0, CHR 0xF1, CHR 0xF2, CHR 0xF3, CHR 0xF4, CHR 0xF5, CHR 0xF6,
      CHR 0xF8, CHR 0xF9, CHR 0xFA, CHR 0xFB, CHR 0xFC, CHR 0xFD, CHR 0xFE]"

definition lower_char :: "char \<Rightarrow> char" where
  "lower_char c = (case map_of (zip upper_letters lower_letters) c of
                     None \<Rightarrow> c | Some l \<Rightarrow> l)"

definition lower :: "string \<Rightarrow> string" where
  "lower s = map lower_char s"

definition upper_char :: "char \<Rightarrow> char" where
  "upper_char c = (case map_of (zip lower_letters upper_letters) c of
                     None \<Rightarrow> c | Some u \<Rightarrow> u)"

text \<open>\<^verbatim>\<open>s.capitalize()\<close>: first character upper case, the rest lower case. The
  program applies it to the values of \<^verbatim>\<open>NodeType\<close> only, which are ASCII.\<close>

definition capitalize :: "string \<Rightarrow> string" where
  "capitalize s = (case s of [] \<Rightarrow> [] | c # cs \<Rightarrow> upper_char c # lower cs)"

text \<open>
  The truth value of an \<^verbatim>\<open>Optional[str]\<close>: \<^verbatim>\<open>num or 'unknown'\<close>, \<^verbatim>\<open>if num\<close> and
  \<^verbatim>\<open>if elem.text\<close> treat \<^verbatim>\<open>None\<close> and the empty string alike.
\<close>

definition truthy :: "string option \<Rightarrow> bool" where
  "truthy x = (case x of None \<Rightarrow> False | Some s \<Rightarrow> s \<noteq> [])"

section \<open>The data model (models.py)\<close>

datatype NodeType =
    TITLE | SUBTITLE | CHAPTER | SUBCHAPTER | PART | SUBPART
  | SECTION | SUBSECTION | PARAGRAPH | SUBPARAGRAPH | CLAUSE

datatype NodeStatus = ACTIVE | REPEALED | EXPIRED | RESERVED

record Reference =
  target_section :: string
  ref_context_text :: string
  reference_type :: string

section \<open>Regular expressions as used by models.py\<close>

text \<open>
  The patterns of \<^verbatim>\<open>SECTION_REFERENCE_PATTERNS\<close> use literals, character classes,
  \<^verbatim>\<open>\b\<close>, greedy \<^verbatim>\<open>?\<close>, \<^verbatim>\<open>*\<close>, \<^verbatim>\<open>+\<close>, alternation and capturing groups.
  They are compiled with \<^verbatim>\<open>re.IGNORECASE\<close>, so a literal matches a character when
  both have the same lower-case form.
\<close>

definition is_digit :: "char \<Rightarrow> bool" where
  "is_digit c = (c \<in> set ''0123456789'')"

definition is_ascii_alpha :: "char \<Rightarrow> bool" where
  "is_ascii_alpha c =
     (c \<in> set ''abcdefghijklmnopqrstuvwxyzABCDEFGHIJKLMNOPQRSTUVWXYZ'')"

text \<open>The class \<^verbatim>\<open>[a-z0-9]\<close> under \<^verbatim>\<open>re.IGNORECASE\<close>.\<close>

definition is_alnum_ci :: "char \<Rightarrow> bool" where
  "is_alnum_ci c = (is_digit c \<or> is_ascii_alpha c)"

text \<open>The class \<^verbatim>\<open>\w\<close> on the Latin-1 range: alphanumeric characters and the underscore.\<close>

definition is_word :: "char \<Rightarrow> bool" where
  "is_word c =
     (c \<in> set lower_letters \<or> is_digit c \<or> c \<in> set upper_letters \<or>
      c \<in> set [CHR ''_'', CHR 0xAA, CHR 0xB2, CHR 0xB3, CHR 0xB5, CHR 0xB9, CHR 0xBA,
                CHR 0xBC, CHR 0xBD, CHR 0xBE, CHR 0xDF, CHR 0xFF])"

datatype rx =
    Eps
  | Ch char
  | Cls "char \<Rightarrow> bool"
  | WordB
  | Cat rx rx
  | Alt rx rx
  | Opt rx
  | Star rx
  | Plus rx
  | Grp nat rx

text \<open>
  A matcher position: the offset, the character before it (for \<^verbatim>\<open>\b\<close>), the text
  still to read, and the groups captured so far (latest first).
\<close>

datatype mstate =
  MState (m_pos: nat) (m_prev: "char option") (m_rest: string) (m_groups: "(nat \<times> string) list")

definition advance :: "mstate \<Rightarrow> mstate list" where
  "advance st =
     (case m_rest st of
        [] \<Rightarrow> []
      | c # cs \<Rightarrow> [MState (m_pos st + 1) (Some c) cs (m_groups st)])"

definition next_is :: "(char \<Rightarrow> bool) \<Rightarrow> mstate \<Rightarrow> bool" where
  "next_is p st = (case m_rest st of [] \<Rightarrow> False | c # cs \<Rightarrow> p c)"

definition at_boundary :: "mstate \<Rightarrow> bool" where
  "at_boundary st =
     ((case m_prev st of None \<Rightarrow> False | Some c \<Rightarrow> is_word c) \<noteq> next_is is_word st)"

text \<open>\<open>bind xs f\<close> continues every result of \<open>xs\<close> with \<open>f\<close>, keeping the order.\<close>

definition bind :: "mstate list \<Rightarrow> (mstate \<Rightarrow> mstate list) \<Rightarrow> mstate list" where
  "bind xs f = concat (map f xs)"

text \<open>
  Greedy repetition: the results that take one more iteration come before the result
  that stops, as a backtracking matcher tries them. The numeral bounds the iterations
  by the length of the remaining text; an iteration that consumes nothing is dropped.
\<close>

fun star_ms :: "(mstate \<Rightarrow> mstate list) \<Rightarrow> nat \<Rightarrow> mstate \<Rightarrow> mstate list"
  and star_next :: "(mstate \<Rightarrow> mstate list) \<Rightarrow> nat \<Rightarrow> mstate \<Rightarrow> mstate \<Rightarrow> mstate list" where
  "star_ms f 0 st = [st]"
| "star_ms f (Suc n) st = bind (f st) (star_next f n st) @ [st]"
| "star_next f n st st' =
     (if length (m_rest st') < length (m_rest st) then star_ms f n st' else [])"

definition star :: "(mstate \<Rightarrow> mstate list) \<Rightarrow> mstate \<Rightarrow> mstate list" where
  "star f st = star_ms f (length (m_rest st)) st"

definition set_group :: "nat \<Rightarrow> mstate \<Rightarrow> mstate \<Rightarrow> mstate" where
  "set_group i st st' =
     MState (m_pos st') (m_prev st') (m_rest st')
            ((i, take (m_pos st' - m_pos st) (m_rest st)) # m_groups st')"

definition ci_eq :: "char \<Rightarrow> char \<Rightarrow> bool" where
  "ci_eq c x = (lower_char x = lower_char c)"

text \<open>
  \<open>ms r st\<close> lists every way \<open>r\<close> matches at \<open>st\<close>, in the order a backtracking
  matcher finds them; the head is the match that \<^verbatim>\<open>re\<close> reports.
\<close>

primrec ms :: "rx \<Rightarrow> mstate \<Rightarrow> mstate list" where
  "ms Eps st = [st]"
| "ms (Ch c) st = (if next_is (ci_eq c) st then advance st else [])"
| "ms (Cls p) st = (if next_is p st then advance st else [])"
| "ms WordB st = (if at_boundary st then [st] else [])"
| "ms (Cat a b) st = bind (ms a st) (ms b)"
| "ms (Alt a b) st = ms a st @ ms b st"
| "ms (Opt a) st = ms a st @ [st]"
| "ms (Star a) st = star (ms a) st"
| "ms (Plus a) st = bind (ms a st) (star (ms a))"
| "ms (Grp i a) st = map (set_group i st) (ms a st)"

primrec ngroups :: "rx \<Rightarrow> nat" where
  "ngroups Eps = 0"
| "ngroups (Ch c) = 0"
| "ngroups (Cls p) = 0"
| "ngroups WordB = 0"
| "ngroups (Cat a b) = ngroups a + ngroups b"
| "ngroups (Alt a b) = ngroups a + ngroups b"
| "ngroups (Opt a) = ngroups a"
| "ngroups (Star a) = ngroups a"
| "ngroups (Plus a) = ngroups a"
| "ngroups (Grp i a) = Suc (ngroups a)"

text \<open>A match object: \<^verbatim>\<open>start()\<close>, \<^verbatim>\<open>end()\<close> and \<^verbatim>\<open>groups()\<close>.\<close>

datatype match =
  Match (mt_start: nat) (mt_end: nat) (mt_groups: "string option list")

definition mk_match :: "rx \<Rightarrow> nat \<Rightarrow> mstate \<Rightarrow> match" where
  "mk_match r start st =
     Match start (m_pos st) (map (map_of (m_groups st)) [1 ..< Suc (ngroups r)])"

text \<open>
  \<^verbatim>\<open>re.finditer\<close>: the leftmost match, then the search goes on where it ended. After a
  match that consumed nothing the search moves one character on.
\<close>

function finditer_from :: "rx \<Rightarrow> nat \<Rightarrow> char option \<Rightarrow> string \<Rightarrow> match list" where
  "finditer_from r pos prev [] =
     (case ms r (MState pos prev [] []) of
        [] \<Rightarrow> []
      | m # _ \<Rightarrow> [mk_match r pos m])"
| "finditer_from r pos prev (c # cs) =
     (case ms r (MState pos prev (c # cs) []) of
        [] \<Rightarrow> finditer_from r (pos + 1) (Some c) cs
      | m # _ \<Rightarrow>
          mk_match r pos m #
          (if length (m_rest m) < length (c # cs)
           then finditer_from r (m_pos m) (m_prev m) (m_rest m)
           else finditer_from r (pos + 1) (Some c) cs))"
  by pat_completeness auto
termination
  by (relation "measure (\<lambda>(r, pos, prev, s). length s)") auto

definition finditer :: "rx \<Rightarrow> string \<Rightarrow> match list" where
  "finditer r text = finditer_from r 0 None text"

section \<open>Cross-references (models.py, extract\_references)\<close>

definition lit :: "string \<Rightarrow> rx" where
  "lit s = foldr (\<lambda>c r. Cat (Ch c) r) s Eps"

text \<open>\<^verbatim>\<open>\d+[A-Za-z]?\<close> and \<^verbatim>\<open>\d+[A-Za-z]?(?:\([a-z0-9]+\))*\<close>.\<close>

definition rx_short :: rx where
  "rx_short = Cat (Plus (Cls is_digit)) (Opt (Cls is_ascii_alpha))"

definition rx_designator :: rx where
  "rx_designator =
     Cat rx_short (Star (Cat (Ch CHR ''('') (Cat (Plus (Cls is_alnum_ci)) (Ch CHR '')''))))"

definition rx_spaces :: rx where
  "rx_spaces = Plus (Cls is_space)"

text \<open>The pattern list, in the order of the source.\<close>

definition SECTION_REFERENCE_PATTERNS :: "(rx \<times> string) list" where
  "SECTION_REFERENCE_PATTERNS =
     [(Cat WordB (Cat (lit ''section'') (Cat rx_spaces (Grp 1 rx_designator))), ''general''),
      (Cat WordB (Cat (lit ''section'') (Cat (Opt (Ch CHR ''s''))
         (Cat rx_spaces (Cat (Grp 1 rx_short) (Cat rx_spaces
           (Cat (Alt (lit ''and'') (lit ''or'')) (Cat rx_spaces (Grp 2 rx_short)))))))),
       ''general''),
      (Cat WordB (Cat (lit ''sec'') (Cat (Ch CHR ''.'')
         (Cat (Star (Cls is_space)) (Grp 1 rx_designator)))), ''general''),
      (Cat (lit ''as defined in section'') (Cat rx_spaces (Grp 1 rx_designator)),
       ''definition''),
      (Cat (lit ''subject to '') (Cat (Opt (lit ''the provisions of ''))
         (Cat (lit ''section'') (Cat rx_spaces (Grp 1 rx_designator)))), ''subject_to''),
      (Cat (lit ''except as provided in section'') (Cat rx_spaces (Grp 1 rx_designator)),
       ''exception''),
      (Cat (lit ''under section'') (Cat rx_spaces (Grp 1 rx_designator)), ''general''),
      (Cat (lit ''provided in section'') (Cat rx_spaces (Grp 1 rx_designator)), ''general''),
      (Cat (lit ''see section'') (Cat rx_spaces (Grp 1 rx_designator)), ''general'')]"

text \<open>
  The three nested loops of \<^verbatim>\<open>extract_references\<close> thread the pair
  \<^verbatim>\<open>(references, seen)\<close>. The innermost step handles one captured group.
\<close>

definition ref_context :: "string \<Rightarrow> match \<Rightarrow> string" where
  "ref_context text m =
     (let start = (if mt_start m \<ge> 30 then mt_start m - 30 else 0);
          end = min (length text) (mt_end m + 30)
      in ''...'' @ strip (take (end - start) (drop start text)) @ ''...'')"

definition ref_group ::
  "string \<Rightarrow> string \<Rightarrow> match \<Rightarrow> string option \<Rightarrow> Reference list \<times> string list
     \<Rightarrow> Reference list \<times> string list" where
  "ref_group text ref_type m g acc =
     (case g of
        None \<Rightarrow> acc
      | Some section \<Rightarrow>
          (if section \<noteq> [] \<and> section \<notin> set (snd acc)
           then (fst acc @ [\<lparr>target_section = section, ref_context_text = ref_context text m,
                             reference_type = ref_type\<rparr>],
                 snd acc @ [section])
           else acc))"

definition ref_match ::
  "string \<Rightarrow> string \<Rightarrow> match \<Rightarrow> Reference list \<times> string list
     \<Rightarrow> Reference list \<times> string list" where
  "ref_match text ref_type m acc = fold (ref_group text ref_type m) (mt_groups m) acc"

definition ref_pattern ::
  "string \<Rightarrow> rx \<times> string \<Rightarrow> Reference list \<times> string list
     \<Rightarrow> Reference list \<times> string list" where
  "ref_pattern text pt acc = fold (ref_match text (snd pt)) (finditer (fst pt) text) acc"

definition extract_references :: "string \<Rightarrow> Reference list" where
  "extract_references text =
     (if text = [] then []
      else fst (fold (ref_pattern text) SECTION_REFERENCE_PATTERNS ([], [])))"

section \<open>XML nodes (the part of lxml the parser uses)\<close>

text \<open>
  A child of an element is an element, a comment or a processing instruction. An element
  has a namespace (empty when it has none), a local name, attributes, the text before its
  first child, its children in document order, and the text that follows its end tag. A
  comment and a processing instruction have a body and the text that follows them (their
  tail). Their \<^verbatim>\<open>tag\<close> is not a string, so it equals no name the program compares
  with: the local name of these nodes is the empty string here, which is the name of no
  element. They have no attributes and no children.
\<close>

datatype elem =
    Elem (e_ns: string) (e_local: string) (e_attrs: "(string \<times> string) list")
         (e_text: "string option") (e_kids: "elem list") (e_tail: "string option")
  | Comment (e_body: string) (e_tail: "string option")
  | ProcInst (e_body: string) (e_tail: "string option")
where
  "e_ns (Comment b t) = []"
| "e_ns (ProcInst b t) = []"
| "e_local (Comment b t) = []"
| "e_local (ProcInst b t) = []"
| "e_attrs (Comment b t) = []"
| "e_attrs (ProcInst b t) = []"
| "e_text (Comment b t) = None"
| "e_text (ProcInst b t) = None"
| "e_kids (Comment b t) = []"
| "e_kids (ProcInst b t) = []"
| "e_body (Elem ns name attrs etext kids tail) = []"

definition is_element :: "elem \<Rightarrow> bool" where
  "is_element e = (case e of Elem ns name attrs etext kids tail \<Rightarrow> True | _ \<Rightarrow> False)"

definition USLM_NS :: string where
  "USLM_NS = ''http://xml.house.gov/schemas/uslm/1.0''"

definition XHTML_NS :: string where
  "XHTML_NS = ''http://www.w3.org/1999/xhtml''"

text \<open>\<^verbatim>\<open>elem.get(key, default)\<close>.\<close>

definition attr_get :: "elem \<Rightarrow> string \<Rightarrow> string \<Rightarrow> string" where
  "attr_get e key dflt = (case map_of (e_attrs e) key of None \<Rightarrow> dflt | Some v \<Rightarrow> v)"

text \<open>An element with this namespace and local name; never a comment or a processing
  instruction.\<close>

definition has_tag :: "string \<Rightarrow> string \<Rightarrow> elem \<Rightarrow> bool" where
  "has_tag ns name e = (is_element e \<and> e_ns e = ns \<and> e_local e = name)"

text \<open>\<^verbatim>\<open>elem.find("ns:name", NAMESPACES)\<close> and \<^verbatim>\<open>elem.find("name")\<close>: the first child
  element with that namespace and local name.\<close>

definition find_child :: "string \<Rightarrow> string \<Rightarrow> elem \<Rightarrow> elem option" where
  "find_child ns name e = find (has_tag ns name) (e_kids e)"

text \<open>\<^verbatim>\<open>elem.iter()\<close>: the element and its descendants in document order, comments and
  processing instructions among them.\<close>

fun iter_elem :: "elem \<Rightarrow> elem list" where
  "iter_elem (Elem ns name attrs etext kids tail) =
     Elem ns name attrs etext kids tail # concat (map iter_elem kids)"
| "iter_elem (Comment b t) = [Comment b t]"
| "iter_elem (ProcInst b t) = [ProcInst b t]"

text \<open>\<^verbatim>\<open>elem.find(".//name")\<close>: the first proper descendant element in document order.\<close>

definition find_desc :: "string \<Rightarrow> string \<Rightarrow> elem \<Rightarrow> elem option" where
  "find_desc ns name e = find (has_tag ns name) (concat (map iter_elem (e_kids e)))"

definition or_else :: "'a option \<Rightarrow> 'a option \<Rightarrow> 'a option" where
  "or_else x y = (case x of None \<Rightarrow> y | Some v \<Rightarrow> Some v)"

definition opt_str :: "string option \<Rightarrow> string" where
  "opt_str x = (case x of None \<Rightarrow> [] | Some s \<Rightarrow> s)"

text \<open>
  \<^verbatim>\<open>"".join(elem.itertext())\<close> for an element: its text, then for each child the child's
  own text content followed by the child's tail. A comment or a processing instruction
  below the element yields its tail only. Called on a comment or a processing
  instruction itself, \<^verbatim>\<open>itertext()\<close> raises; \<open>element_to_text\<close> is the one place where
  the program can do that, and the error is modelled there.
\<close>

fun itertext :: "elem \<Rightarrow> string" where
  "itertext (Elem ns name attrs etext kids tail) =
     opt_str etext @ concat (map (\<lambda>k. itertext k @ opt_str (e_tail k)) kids)"
| "itertext (Comment b t) = []"
| "itertext (ProcInst b t) = []"

text \<open>
  The exceptions that leave \<^verbatim>\<open>parse_file\<close>. \<open>ValueError\<close> carries the message of the
  two \<^verbatim>\<open>raise ValueError(...)\<close> of the parser; \<open>NotAnElementError\<close> is the
  \<^verbatim>\<open>ValueError\<close> that lxml raises from \<^verbatim>\<open>itertext()\<close> on a comment or a processing
  instruction.
\<close>

datatype parse_error =
  FileNotFoundError | XMLSyntaxError | ValueError string | NotAnElementError

section \<open>Text extraction (parser.py)\<close>

definition ELEMENT_TO_NODE_TYPE :: "string \<Rightarrow> NodeType option" where
  "ELEMENT_TO_NODE_TYPE =
     map_of [(''title'', TITLE), (''subtitle'', SUBTITLE), (''chapter'', CHAPTER),
             (''subchapter'', SUBCHAPTER), (''part'', PART), (''subpart'', SUBPART),
             (''section'', SECTION), (''subsection'', SUBSECTION),
             (''paragraph'', PARAGRAPH), (''subparagraph'', SUBPARAGRAPH),
             (''clause'', CLAUSE)]"

definition is_structural :: "elem \<Rightarrow> bool" where
  "is_structural e = (ELEMENT_TO_NODE_TYPE (e_local e) \<noteq> None)"

text \<open>\<^verbatim>\<open>_get_text_content\<close>.\<close>

definition get_text_content :: "elem \<Rightarrow> string \<Rightarrow> string option" where
  "get_text_content e child_name =
     (case or_else (find_child USLM_NS child_name e) (find_child [] child_name e) of
        None \<Rightarrow> None
      | Some child \<Rightarrow>
          (let t = strip (itertext child) in if t \<noteq> [] then Some t else None))"

text \<open>\<^verbatim>\<open>_table_to_markdown\<close>. \<^verbatim>\<open>cell_text.replace("|", "\\|")\<close> puts a backslash
  before every pipe.\<close>

definition escape_pipes :: "string \<Rightarrow> string" where
  "escape_pipes s = concat (map (\<lambda>c. if c = CHR ''|'' then [CHR 0x5C, CHR ''|''] else [c]) s)"

definition is_cell :: "elem \<Rightarrow> bool" where
  "is_cell c = (e_local c = ''th'' \<or> e_local c = ''td'')"

definition row_cells :: "elem \<Rightarrow> string list" where
  "row_cells tr = map (\<lambda>cell. escape_pipes (strip (itertext cell))) (filter is_cell (e_kids tr))"

definition table_rows :: "elem \<Rightarrow> string list list" where
  "table_rows table =
     filter (\<lambda>cells. cells \<noteq> [])
       (map row_cells (filter (\<lambda>tr. e_local tr = ''tr'') (iter_elem table)))"

definition md_line :: "string list \<Rightarrow> string" where
  "md_line cells = ''| '' @ join '' | '' cells @ '' |''"

text \<open>The loop \<^verbatim>\<open>while len(row) < len(rows[0]): row.append("")\<close>.\<close>

definition pad_row :: "nat \<Rightarrow> string list \<Rightarrow> string list" where
  "pad_row n row = row @ replicate (n - length row) []"

definition md_lines :: "string list list \<Rightarrow> string list" where
  "md_lines rows =
     (case rows of
        [] \<Rightarrow> []
      | header # data \<Rightarrow>
          md_line header # md_line (replicate (length header) ''---'') #
          map (\<lambda>row. md_line (pad_row (length header) row)) data)"

definition table_to_markdown :: "elem \<Rightarrow> string" where
  "table_to_markdown table =
     (let rows = table_rows table
      in if rows = [] then [] else join [CHR 0x0A] (md_lines rows))"

text \<open>
  \<^verbatim>\<open>_element_to_text\<close>. For a comment or a processing instruction the tag is no
  string, no table is found below it, and \<^verbatim>\<open>"".join(elem.itertext())\<close> raises.
\<close>

definition element_to_text :: "elem \<Rightarrow> parse_error + string" where
  "element_to_text e =
     (if \<not> is_element e then Inl NotAnElementError
      else if e_local e = ''table'' then Inr (table_to_markdown e)
      else
        (case or_else (find_desc [] ''table'' e) (find_desc XHTML_NS ''table'' e) of
           Some table \<Rightarrow>
             (let pre_text = opt_str (e_text e);
                  table_text = table_to_markdown table;
                  post_parts = filter (\<lambda>t. t \<noteq> []) (map (\<lambda>child. opt_str (e_tail child)) (e_kids e));
                  post_text = join '' '' post_parts
              in Inr (strip (pre_text @ [CHR 0x0A] @ table_text @ [CHR 0x0A] @ post_text)))
         | None \<Rightarrow> Inr (itertext e)))"

text \<open>A loop that appends one result per item stops at the first item that raises.\<close>

fun collect :: "('e + 'a) list \<Rightarrow> 'e + 'a list" where
  "collect [] = Inr []"
| "collect (Inl err # rs) = Inl err"
| "collect (Inr x # rs) = (case collect rs of Inl err \<Rightarrow> Inl err | Inr xs \<Rightarrow> Inr (x # xs))"

text \<open>\<^verbatim>\<open>re.sub(r"\s+", " ", text)\<close>: every maximal run of white space becomes one space.\<close>

function collapse_ws :: "string \<Rightarrow> string" where
  "collapse_ws [] = []"
| "collapse_ws (c # cs) =
     (if is_space c then CHR '' '' # collapse_ws (dropWhile is_space cs)
      else c # collapse_ws cs)"
  by pat_completeness auto
termination
  by (relation "measure length") (auto simp: length_dropWhile_le less_Suc_eq_le)

text \<open>
  \<^verbatim>\<open>html.unescape\<close> returns its argument when it holds no ampersand, and otherwise
  substitutes the character references (\<^verbatim>\<open>_charref.sub(_replace_charref, s)\<close>). That
  substitution belongs to the Python library and depends on its entity tables; it is the
  parameter \<open>sub\<close> of everything that cleans text.
\<close>

definition html_unescape :: "(string \<Rightarrow> string) \<Rightarrow> string \<Rightarrow> string" where
  "html_unescape sub s = (if CHR ''&'' \<notin> set s then s else sub s)"

text \<open>
  The substitution for the reference \<^verbatim>\<open>&amp;\<close> alone: each occurrence becomes an
  ampersand. \<^verbatim>\<open>html.unescape\<close> agrees with it on every string whose ampersands all
  start \<^verbatim>\<open>&amp;\<close>; concrete runs below use it on such strings.
\<close>

function charref_sub_amp :: "string \<Rightarrow> string" where
  "charref_sub_amp [] = []"
| "charref_sub_amp (c # cs) =
     (if startswith (c # cs) ''&amp;'' then CHR ''&'' # charref_sub_amp (drop 4 cs)
      else c # charref_sub_amp cs)"
  by pat_completeness auto
termination
  by (relation "measure length") auto

text \<open>\<^verbatim>\<open>_clean_text\<close>.\<close>

definition clean_text :: "(string \<Rightarrow> string) \<Rightarrow> string \<Rightarrow> string" where
  "clean_text sub text = strip (collapse_ws (html_unescape sub text))"

text \<open>
  \<^verbatim>\<open>_extract_text\<close>. Without a \<^verbatim>\<open>content\<close> child, every child whose tag is neither
  a structural name nor \<^verbatim>\<open>num\<close>, \<^verbatim>\<open>heading\<close>, \<^verbatim>\<open>meta\<close> is handed to
  \<^verbatim>\<open>_element_to_text\<close>: comments and processing instructions too, for which it raises.
\<close>

definition is_metadata :: "elem \<Rightarrow> bool" where
  "is_metadata e = (e_local e \<in> set [''num'', ''heading'', ''meta''])"

definition extract_text :: "(string \<Rightarrow> string) \<Rightarrow> elem \<Rightarrow> parse_error + string" where
  "extract_text sub e =
     (case
        (case or_else (find_child USLM_NS ''content'' e) (find_child [] ''content'' e) of
           Some content \<Rightarrow> collect [element_to_text content]
         | None \<Rightarrow>
             (case collect (map element_to_text
                     (filter (\<lambda>child. \<not> is_structural child \<and> \<not> is_metadata child) (e_kids e))) of
                Inl err \<Rightarrow> Inl err
              | Inr parts \<Rightarrow>
                  Inr (if truthy (e_text e) then strip (opt_str (e_text e)) # parts else parts)))
      of
        Inl err \<Rightarrow> Inl err
      | Inr text_parts \<Rightarrow> Inr (clean_text sub (join '' '' (filter (\<lambda>t. t \<noteq> []) text_parts))))"

section \<open>Status (parser.py, \_determine\_status)\<close>

text \<open>The text is extracted only when the attribute decides nothing; the extraction
  can raise.\<close>

definition determine_status :: "(string \<Rightarrow> string) \<Rightarrow> elem \<Rightarrow> parse_error + NodeStatus" where
  "determine_status sub e =
     (let status_attr = lower (attr_get e ''status'' [])
      in if py_in ''repeal'' status_attr then Inr REPEALED
         else if py_in ''expired'' status_attr then Inr EXPIRED
         else if py_in ''reserved'' status_attr then Inr RESERVED
         else
           (case extract_text sub e of
              Inl err \<Rightarrow> Inl err
            | Inr extracted \<Rightarrow>
                (let text = lower extracted
                 in if py_in ''[repealed'' text \<or> py_in ''repealed.'' text then Inr REPEALED
                    else if py_in ''[expired'' text then Inr EXPIRED
                    else Inr ACTIVE)))"

section \<open>Citation ids (parser.py, \_build\_citation\_id)\<close>

text \<open>\<^verbatim>\<open>re.sub(r"^Sec\.?\s*", "", num)\<close>: the pattern is anchored, so at most one
  match, at offset 0.\<close>

definition clean_num :: "string \<Rightarrow> string" where
  "clean_num num =
     (if startswith num ''Sec''
      then (let r = drop 3 num;
                r' = (if startswith r ''.'' then drop 1 r else r)
            in dropWhile is_space r')
      else num)"

text \<open>
  The loop over \<^verbatim>\<open>parts[3:]\<close>. The state is \<^verbatim>\<open>(in_section, section_parts)\<close>;
  the branches are tested in the order of the source's \<^verbatim>\<open>if/elif\<close> chain.
\<close>

fun citation_loop :: "string list \<Rightarrow> bool \<times> string list \<Rightarrow> bool \<times> string list" where
  "citation_loop [] st = st"
| "citation_loop (part # rest) (in_section, section_parts) =
     (if startswith part ''s'' then
        citation_loop rest (True, section_parts @ [drop 1 part])
      else if startswith part ''st'' then
        citation_loop rest (in_section, section_parts)
      else if startswith part ''ch'' then
        citation_loop rest (in_section, section_parts)
      else if startswith part ''sch'' then
        citation_loop rest (in_section, section_parts)
      else if startswith part ''pt'' then
        citation_loop rest (in_section, section_parts)
      else if startswith part ''spt'' then
        citation_loop rest (in_section, section_parts)
      else if in_section then
        citation_loop rest (in_section, section_parts @ [''('' @ part @ '')''])
      else
        citation_loop rest (in_section, section_parts))"

definition build_citation_fallback :: "string option \<Rightarrow> string \<Rightarrow> string" where
  "build_citation_fallback num identifier =
     (if truthy num then ''26 USC '' @ clean_num (the num)
      else ''26 USC '' @ identifier)"

definition build_citation_id :: "NodeType \<Rightarrow> string option \<Rightarrow> string \<Rightarrow> string" where
  "build_citation_id node_type num identifier =
     (if identifier = [] then
        ''26 USC '' @ (if truthy num then the num else ''unknown'')
      else
        (let parts = split_on CHR ''/'' (strip_chars ''/'' identifier)
         in if length parts \<ge> 4 \<and> parts ! 0 = ''us'' \<and> parts ! 1 = ''usc'' then
              (let section_parts = snd (citation_loop (drop 3 parts) (False, []))
               in if section_parts \<noteq> [] then ''26 USC '' @ concat section_parts
                  else build_citation_fallback num identifier)
            else build_citation_fallback num identifier))"

section \<open>The tree builder (parser.py, USLMParser)\<close>

datatype LegalNode =
  LegalNode (n_id: string) (n_identifier: string) (n_node_type: NodeType)
            (n_num: "string option") (n_heading: "string option") (n_text: string)
            (n_status: NodeStatus) (n_parent_id: "string option")
            (n_hierarchical_path: string) (n_references: "Reference list")
            (n_children: "LegalNode list")

record ParsedTaxCode =
  title :: string
  root :: LegalNode
  total_sections :: int
  total_nodes :: int
  repealed_sections :: "string list"

text \<open>The mutable fields of a \<^verbatim>\<open>USLMParser\<close>; \<^verbatim>\<open>max_sections\<close> never changes and
  is passed along as \<open>mx\<close>.\<close>

datatype pstate =
  PState (sections_parsed: int) (p_total_nodes: int) (p_repealed_sections: "string list")

definition init_pstate :: pstate where
  "init_pstate = PState 0 0 []"

definition node_type_value :: "NodeType \<Rightarrow> string" where
  "node_type_value t =
     (case t of TITLE \<Rightarrow> ''title'' | SUBTITLE \<Rightarrow> ''subtitle'' | CHAPTER \<Rightarrow> ''chapter''
      | SUBCHAPTER \<Rightarrow> ''subchapter'' | PART \<Rightarrow> ''part'' | SUBPART \<Rightarrow> ''subpart''
      | SECTION \<Rightarrow> ''section'' | SUBSECTION \<Rightarrow> ''subsection'' | PARAGRAPH \<Rightarrow> ''paragraph''
      | SUBPARAGRAPH \<Rightarrow> ''subparagraph'' | CLAUSE \<Rightarrow> ''clause'')"

text \<open>\<^verbatim>\<open>self.max_sections and self.sections_parsed >= self.max_sections\<close>: an absent
  limit and the limit 0 are both false.\<close>

definition limit_hit :: "int option \<Rightarrow> pstate \<Rightarrow> bool" where
  "limit_hit mx s =
     (case mx of None \<Rightarrow> False | Some k \<Rightarrow> k \<noteq> 0 \<and> sections_parsed s \<ge> k)"

definition build_hierarchical_path ::
  "string \<Rightarrow> NodeType \<Rightarrow> string option \<Rightarrow> string option \<Rightarrow> string" where
  "build_hierarchical_path parent_path node_type num heading =
     (let p1 = (if parent_path \<noteq> [] then [parent_path] else []);
          p2 = (if truthy heading
                then [capitalize (node_type_value node_type) @ '': '' @ opt_str heading]
                else if truthy num
                then [capitalize (node_type_value node_type) @ '' '' @ opt_str num]
                else [])
      in join '' > '' (p1 @ p2))"

text \<open>The block "Track sections" and the increment of \<^verbatim>\<open>total_nodes\<close>.\<close>

definition track :: "NodeType \<Rightarrow> NodeStatus \<Rightarrow> string \<Rightarrow> pstate \<Rightarrow> pstate" where
  "track node_type status node_id s =
     (let s1 = (if node_type = SECTION
                then PState (sections_parsed s + 1) (p_total_nodes s)
                       (if status = REPEALED then p_repealed_sections s @ [node_id]
                        else p_repealed_sections s)
                else s)
      in PState (sections_parsed s1) (p_total_nodes s1 + 1) (p_repealed_sections s1))"

text \<open>
  The node that \<^verbatim>\<open>_parse_element\<close> creates for an element of a recognised type, with
  \<^verbatim>\<open>children=[]\<close>: every field is computed from the element and the parent's path and
  id, none from the parser state. The status is determined before the text is
  extracted; either step can raise.
\<close>

definition new_node ::
  "(string \<Rightarrow> string) \<Rightarrow> elem \<Rightarrow> NodeType \<Rightarrow> string \<Rightarrow> string option
     \<Rightarrow> parse_error + LegalNode" where
  "new_node sub e node_type parent_path parent_id =
     (let identifier = attr_get e ''identifier'' [];
          num = get_text_content e ''num'';
          heading = get_text_content e ''heading''
      in case determine_status sub e of
           Inl err \<Rightarrow> Inl err
         | Inr status \<Rightarrow>
             (let hierarchical_path = build_hierarchical_path parent_path node_type num heading;
                  node_id = build_citation_id node_type num identifier
              in case extract_text sub e of
                   Inl err \<Rightarrow> Inl err
                 | Inr text \<Rightarrow>
                     Inr (LegalNode node_id identifier node_type num heading text status
                            parent_id hierarchical_path (extract_references text) [])))"

text \<open>The effect of the \<^verbatim>\<open>node.children.append\<close> calls of one loop.\<close>

definition append_children :: "LegalNode \<Rightarrow> LegalNode list \<Rightarrow> LegalNode" where
  "append_children n cs =
     LegalNode (n_id n) (n_identifier n) (n_node_type n) (n_num n) (n_heading n) (n_text n)
       (n_status n) (n_parent_id n) (n_hierarchical_path n) (n_references n)
       (n_children n @ cs)"

text \<open>
  \<^verbatim>\<open>_parse_element\<close> and its loop over the children. Both return the new parser state
  beside their result, or the exception that ends the parse. The loop skips every child
  whose tag is no structural name, comments and processing instructions among them.
\<close>

fun parse_element ::
    "(string \<Rightarrow> string) \<Rightarrow> int option \<Rightarrow> elem \<Rightarrow> string \<Rightarrow> string option \<Rightarrow> pstate
       \<Rightarrow> parse_error + LegalNode option \<times> pstate"
  and parse_children ::
    "(string \<Rightarrow> string) \<Rightarrow> int option \<Rightarrow> elem list \<Rightarrow> string \<Rightarrow> string \<Rightarrow> pstate
       \<Rightarrow> parse_error + LegalNode list \<times> pstate" where
  "parse_element sub mx (Elem ns tag attrs etext kids tail) parent_path parent_id s =
     (if limit_hit mx s then Inr (None, s)
      else
        (case ELEMENT_TO_NODE_TYPE tag of
           None \<Rightarrow> Inr (None, s)
         | Some node_type \<Rightarrow>
             (case new_node sub (Elem ns tag attrs etext kids tail) node_type
                     parent_path parent_id of
                Inl err \<Rightarrow> Inl err
              | Inr node \<Rightarrow>
                  (case parse_children sub mx kids (n_hierarchical_path node) (n_id node)
                          (track node_type (n_status node) (n_id node) s) of
                     Inl err \<Rightarrow> Inl err
                   | Inr r \<Rightarrow> Inr (Some (append_children node (fst r)), snd r)))))"
| "parse_element sub mx (Comment b t) parent_path parent_id s = Inr (None, s)"
| "parse_element sub mx (ProcInst b t) parent_path parent_id s = Inr (None, s)"
| "parse_children sub mx [] parent_path parent_id s = Inr ([], s)"
| "parse_children sub mx (child # rest) parent_path parent_id s =
     (if is_structural child then
        (case parse_element sub mx child parent_path (Some parent_id) s of
           Inl err \<Rightarrow> Inl err
         | Inr r \<Rightarrow>
             (case parse_children sub mx rest parent_path parent_id (snd r) of
                Inl err \<Rightarrow> Inl err
              | Inr rs \<Rightarrow>
                  (case fst r of
                     None \<Rightarrow> Inr rs
                   | Some child_node \<Rightarrow> Inr (child_node # fst rs, snd rs))))
      else parse_children sub mx rest parent_path parent_id s)"

text \<open>
  \<^verbatim>\<open>parse_file\<close>. The file is absent, or unreadable as XML, or parsed to a root element.
\<close>

datatype xml_file = Absent | Malformed | Document elem

definition find_title :: "elem \<Rightarrow> elem option" where
  "find_title xml_root =
     (let main = or_else (find_desc USLM_NS ''main'' xml_root) (find_desc [] ''main'' xml_root);
          title_elem =
            (case main of
               None \<Rightarrow> None
             | Some m \<Rightarrow> or_else (find_child USLM_NS ''title'' m) (find_child [] ''title'' m))
      in or_else title_elem
           (or_else (find_desc USLM_NS ''title'' xml_root) (find_desc [] ''title'' xml_root)))"

definition parse_file ::
  "(string \<Rightarrow> string) \<Rightarrow> int option \<Rightarrow> xml_file \<Rightarrow> pstate
     \<Rightarrow> parse_error + ParsedTaxCode \<times> pstate" where
  "parse_file sub mx f s =
     (case f of
        Absent \<Rightarrow> Inl FileNotFoundError
      | Malformed \<Rightarrow> Inl XMLSyntaxError
      | Document xml_root \<Rightarrow>
          (case find_title xml_root of
             None \<Rightarrow> Inl (ValueError ''Could not find title element in XML'')
           | Some title_elem \<Rightarrow>
               (case parse_element sub mx title_elem [] None s of
                  Inl err \<Rightarrow> Inl err
                | Inr (None, s') \<Rightarrow> Inl (ValueError ''Failed to parse root title element'')
                | Inr (Some root_node, s') \<Rightarrow>
                    Inr (\<lparr>title = ''Title 26 - Internal Revenue Code'',
                          root = root_node,
                          total_sections = sections_parsed s',
                          total_nodes = p_total_nodes s',
                          repealed_sections = p_repealed_sections s'\<rparr>, s'))))"

text \<open>\<^verbatim>\<open>parse_tax_code\<close>: a new parser, one call of \<^verbatim>\<open>parse_file\<close>.\<close>

definition parse_tax_code ::
  "(string \<Rightarrow> string) \<Rightarrow> xml_file \<Rightarrow> int option \<Rightarrow> parse_error + ParsedTaxCode" where
  "parse_tax_code sub f mx = map_sum id fst (parse_file sub mx f init_pstate)"

text \<open>The nodes of a tree in pre-order.\<close>

fun preorder :: "LegalNode \<Rightarrow> LegalNode list" where
  "preorder (LegalNode i idf nt nm hdg tx st pid hp refs cs) =
     LegalNode i idf nt nm hdg tx st pid hp refs cs # concat (map preorder cs)"

section \<open>Notions used to state the properties\<close>

text \<open>A string in which white space occurs only as single spaces.\<close>

fun single_spaced :: "string \<Rightarrow> bool" where
  "single_spaced [] = True"
| "single_spaced [c] = (is_space c \<longrightarrow> c = CHR '' '')"
| "single_spaced (c # d # r) =
     ((is_space c \<longrightarrow> c = CHR '' '' \<and> \<not> is_space d) \<and> single_spaced (d # r))"

text \<open>\<open>p\<close> occurs in \<open>s\<close>.\<close>

definition contains :: "string \<Rightarrow> string \<Rightarrow> bool" where
  "contains s p = (\<exists>u v. s = u @ p @ v)"

text \<open>The nodes of an optional tree and of a list of trees, in pre-order.\<close>

definition opt_preorder :: "LegalNode option \<Rightarrow> LegalNode list" where
  "opt_preorder r = (case r of None \<Rightarrow> [] | Some n \<Rightarrow> preorder n)"

definition forest :: "LegalNode list \<Rightarrow> LegalNode list" where
  "forest ns = concat (map preorder ns)"

definition is_section :: "LegalNode \<Rightarrow> bool" where
  "is_section n = (n_node_type n = SECTION)"

definition is_repealed_section :: "LegalNode \<Rightarrow> bool" where
  "is_repealed_section n = (n_node_type n = SECTION \<and> n_status n = REPEALED)"

text \<open>The parser state after the nodes \<open>ns\<close> have been created in this order.\<close>

definition counted :: "LegalNode list \<Rightarrow> pstate \<Rightarrow> pstate" where
  "counted ns s =
     PState (sections_parsed s + int (length (filter is_section ns)))
            (p_total_nodes s + int (length ns))
            (p_repealed_sections s @ map n_id (filter is_repealed_section ns))"

text \<open>
  The elements for which a parse without cutoff creates nodes, in pre-order: an element
  and, below it, the chains of children with structural names.
\<close>

fun struct_desc :: "elem \<Rightarrow> elem list" where
  "struct_desc (Elem ns name attrs etext kids tail) =
     Elem ns name attrs etext kids tail # concat (map struct_desc (filter is_structural kids))"
| "struct_desc (Comment b t) = []"
| "struct_desc (ProcInst b t) = []"

definition visited :: "elem \<Rightarrow> elem list" where
  "visited e = (if is_structural e then struct_desc e else [])"

text \<open>
  The node \<open>n\<close> carries what \<^verbatim>\<open>_parse_element\<close> computes from the element \<open>e\<close>: its
  type, its status, its text, its citation id, its identifier, number, heading and
  references.
\<close>

definition built_from :: "(string \<Rightarrow> string) \<Rightarrow> LegalNode \<Rightarrow> elem \<Rightarrow> bool" where
  "built_from sub n e =
     (ELEMENT_TO_NODE_TYPE (e_local e) = Some (n_node_type n) \<and>
      determine_status sub e = Inr (n_status n) \<and>
      extract_text sub e = Inr (n_text n) \<and>
      n_identifier n = attr_get e ''identifier'' [] \<and>
      n_num n = get_text_content e ''num'' \<and>
      n_heading n = get_text_content e ''heading'' \<and>
      n_id n = build_citation_id (n_node_type n) (n_num n) (n_identifier n) \<and>
      n_references n = extract_references (n_text n))"

text \<open>
  The pipes of a rendered line that delimit columns: those not directly preceded by a
  backslash. The flag tells whether the character before the string is a backslash. A
  line with \<open>n\<close> columns has \<open>n + 1\<close> of them.
\<close>

fun unescaped_pipes :: "bool \<Rightarrow> string \<Rightarrow> nat" where
  "unescaped_pipes esc [] = 0"
| "unescaped_pipes esc (c # cs) =
     (if c = CHR ''|'' \<and> \<not> esc then 1 else 0) + unescaped_pipes (c = CHR 0x5C) cs"

definition column_count :: "string \<Rightarrow> nat" where
  "column_count line = unescaped_pipes False line - 1"

section \<open>Example documents\<close>

text \<open>A title marked repealed by its attribute, holding one section whose text starts
  with the marker "[Repealed]".\<close>

definition doc_repealed :: elem where
  "doc_repealed =
     Elem [] ''doc'' [] None
       [Elem [] ''title'' [(''status'', ''repealed'')] None
          [Elem [] ''section'' [(''identifier'', ''/us/usc/t26/s2'')] (Some ''[Repealed]'') [] None]
          None]
       None"

definition sec_repealed :: elem where
  "sec_repealed =
     Elem [] ''section'' [(''identifier'', ''/us/usc/t26/s2'')] (Some ''[Repealed]'') [] None"

text \<open>A section without \<^verbatim>\<open>content\<close> child that holds a comment, and a document
  whose title holds that section.\<close>

definition sec_comment :: elem where
  "sec_comment =
     Elem [] ''section'' [(''identifier'', ''/us/usc/t26/s1'')] (Some ''Tax imposed.'')
       [Comment '' editorial note '' None] None"

definition doc_comment :: elem where
  "doc_comment =
     Elem [] ''doc'' [] None [Elem [] ''title'' [] None [sec_comment] None] None"

text \<open>A document with no \<^verbatim>\<open>title\<close> element below its root.\<close>

definition doc_no_title :: elem where
  "doc_no_title = Elem [] ''doc'' [] None [Elem [] ''main'' [] None [] None] None"

text \<open>A title with two sections, the first with a subsection.\<close>

definition doc_two_sections :: elem where
  "doc_two_sections =
     Elem [] ''doc'' [] None
       [Elem [] ''title'' [] None
          [Elem [] ''section'' [(''identifier'', ''/us/usc/t26/s1'')] None
             [Elem [] ''subsection'' [(''identifier'', ''/us/usc/t26/s1/a'')] None [] None]
             None,
           Elem [] ''section'' [(''identifier'', ''/us/usc/t26/s2'')] None [] None]
          None]
       None"

text \<open>A table whose second row is longer than its header, and a table with a pipe in a
  header cell and a short second row.\<close>

definition table_wide :: elem where
  "table_wide =
     Elem [] ''table'' [] None
       [Elem [] ''tr'' [] None [Elem [] ''th'' [] (Some ''a'') [] None] None,
        Elem [] ''tr'' [] None
          [Elem [] ''td'' [] (Some ''b'') [] None, Elem [] ''td'' [] (Some ''c'') [] None] None]
       None"

definition table_pipe :: elem where
  "table_pipe =
     Elem [] ''table'' [] None
       [Elem [] ''tr'' [] None
          [Elem [] ''th'' [] (Some ''a|b'') [] None, Elem [] ''th'' [] (Some ''c'') [] None] None,
        Elem [] ''tr'' [] None [Elem [] ''td'' [] (Some ''x'') [] None] None]
       None"

section \<open>Evaluating the character classes\<close>

text \<open>
  A character with a lower-case form has bit 6 set and bit 5 clear, and a word character
  below \<open>0x40\<close> is a digit. The two code equations test these bits before they search
  the tables, so that concrete runs of the matcher evaluate quickly.
\<close>

lemma upper_letters_bits:
  "\<forall>c\<in>set upper_letters. (case c of Char b0 b1 b2 b3 b4 b5 b6 b7 \<Rightarrow> b6 \<and> \<not> b5)"
  by (simp add: upper_letters_def)

lemma length_letters: "length upper_letters = length lower_letters"
  by (simp add: upper_letters_def lower_letters_def)

lemma lower_char_code [code]:
  "lower_char (Char b0 b1 b2 b3 b4 b5 b6 b7) =
     (if b6 \<and> \<not> b5
      then (case map_of (zip upper_letters lower_letters) (Char b0 b1 b2 b3 b4 b5 b6 b7) of
              None \<Rightarrow> Char b0 b1 b2 b3 b4 b5 b6 b7 | Some l \<Rightarrow> l)
      else Char b0 b1 b2 b3 b4 b5 b6 b7)"
proof (cases "b6 \<and> \<not> b5")
  case True
  show ?thesis by (simp only: lower_char_def if_P [OF True])
next
  case False
  have "Char b0 b1 b2 b3 b4 b5 b6 b7 \<in> set upper_letters \<Longrightarrow> b6 \<and> \<not> b5"
    using upper_letters_bits by (auto dest!: bspec)
  with False have "Char b0 b1 b2 b3 b4 b5 b6 b7 \<notin> set upper_letters" by blast
  then have "map_of (zip upper_letters lower_letters) (Char b0 b1 b2 b3 b4 b5 b6 b7) = None"
    by (simp add: map_of_zip_is_None [OF length_letters])
  then show ?thesis by (simp only: lower_char_def if_not_P [OF False] option.case)
qed

lemma word_bits:
  "\<forall>c\<in>set (lower_letters @ upper_letters @ [CHR ''_'', CHR 0xAA, CHR 0xB2, CHR 0xB3, CHR 0xB5, CHR 0xB9, CHR 0xBA,
                CHR 0xBC, CHR 0xBD, CHR 0xBE, CHR 0xDF, CHR 0xFF]). (case c of Char b0 b1 b2 b3 b4 b5 b6 b7 \<Rightarrow> b6 \<or> b7)"
  by (simp add: upper_letters_def lower_letters_def)

lemma digit_bits:
  "\<forall>c\<in>set ''0123456789''. (case c of Char b0 b1 b2 b3 b4 b5 b6 b7 \<Rightarrow> \<not> b6 \<and> \<not> b7)"
  by simp

lemma is_word_code [code]:
  "is_word (Char b0 b1 b2 b3 b4 b5 b6 b7) =
     (if b6 \<or> b7
      then (Char b0 b1 b2 b3 b4 b5 b6 b7 \<in> set lower_letters \<or>
            Char b0 b1 b2 b3 b4 b5 b6 b7 \<in> set upper_letters \<or>
            Char b0 b1 b2 b3 b4 b5 b6 b7 \<in> set [CHR ''_'', CHR 0xAA, CHR 0xB2, CHR 0xB3, CHR 0xB5, CHR 0xB9, CHR 0xBA,
                CHR 0xBC, CHR 0xBD, CHR 0xBE, CHR 0xDF, CHR 0xFF])
      else is_digit (Char b0 b1 b2 b3 b4 b5 b6 b7))"
proof (cases "b6 \<or> b7")
  case True
  have "Char b0 b1 b2 b3 b4 b5 b6 b7 \<in> set ''0123456789'' \<Longrightarrow> \<not> b6 \<and> \<not> b7"
    using digit_bits by (auto dest!: bspec)
  with True have "\<not> is_digit (Char b0 b1 b2 b3 b4 b5 b6 b7)"
    unfolding is_digit_def by blast
  then show ?thesis unfolding is_word_def by (simp only: if_P [OF True] simp_thms)
next
  case False
  let ?c = "Char b0 b1 b2 b3 b4 b5 b6 b7"
  let ?L = "lower_letters @ upper_letters @ [CHR ''_'', CHR 0xAA, CHR 0xB2, CHR 0xB3, CHR 0xB5, CHR 0xB9, CHR 0xBA,
                CHR 0xBC, CHR 0xBD, CHR 0xBE, CHR 0xDF, CHR 0xFF]"
  have "?c \<in> set ?L \<Longrightarrow> b6 \<or> b7"
    using word_bits by (auto dest!: bspec)
  with False have "?c \<notin> set ?L" by blast
  then have "?c \<notin> set lower_letters"
    "?c \<notin> set upper_letters"
    "?c \<notin> set [CHR ''_'', CHR 0xAA, CHR 0xB2, CHR 0xB3, CHR 0xB5, CHR 0xB9, CHR 0xBA,
                CHR 0xBC, CHR 0xBD, CHR 0xBE, CHR 0xDF, CHR 0xFF]"
    by (simp_all only: set_append Un_iff de_Morgan_disj simp_thms)
  then show ?thesis unfolding is_word_def by (simp only: if_not_P [OF False] simp_thms)
qed

section \<open>Cross-references: which pattern wins\<close>

text \<open>
  Claim C1. The claim expects the reference type \<^verbatim>\<open>definition\<close> for a text with the
  phrase "as defined in section 162" and further occurrences of "section 162". The
  source lists the plain pattern \<^verbatim>\<open>\bsection\s+...\<close> first, so that pattern captures
  the designator 162 first and the later patterns find it already seen: the one
  reference returned has the type \<^verbatim>\<open>general\<close>.
\<close>

theorem extract_references_definition_shadowed:
  "extract_references ''as defined in section 162 section 162 section 162'' =
     [\<lparr>target_section = ''162'',
       ref_context_text = ''...as defined in section 162 section 162 section 162...'',
       reference_type = ''general''\<rparr>]"
  by code_simp

section \<open>Properties of the citation id\<close>

lemma startswith_append: "startswith (p @ s) p"
  by (simp add: startswith_def)

lemma build_citation_fallback_prefix:
  "startswith (build_citation_fallback num identifier) ''26 USC ''"
  unfolding build_citation_fallback_def
  by (cases "truthy num") (simp_all only: startswith_append if_True if_False)

text \<open>
  Claim C10. Whatever the node type, the declared number (present, absent or empty) and
  the identifier path (empty, malformed or well formed), the citation id starts with the
  seven characters \<^verbatim>\<open>26 USC \<close>: each of the four return statements builds it so.
\<close>

theorem build_citation_id_prefix:
  "startswith (build_citation_id node_type num identifier) ''26 USC ''"
proof -
  let ?parts = "split_on CHR ''/'' (strip_chars ''/'' identifier)"
  let ?sp = "snd (citation_loop (drop 3 ?parts) (False, []))"
  let ?wf = "length ?parts \<ge> 4 \<and> ?parts ! 0 = ''us'' \<and> ?parts ! 1 = ''usc''"
  consider (empty) "identifier = []"
    | (walk) "identifier \<noteq> []" "?wf" "?sp \<noteq> []"
    | (fallback) "identifier \<noteq> []" "\<not> (?wf \<and> ?sp \<noteq> [])"
    by blast
  then show ?thesis
  proof cases
    case empty
    then have "build_citation_id node_type num identifier =
        ''26 USC '' @ (if truthy num then the num else ''unknown'')"
      by (simp add: build_citation_id_def)
    then show ?thesis by (simp only: startswith_append)
  next
    case walk
    then have "build_citation_id node_type num identifier = ''26 USC '' @ concat ?sp"
      by (simp add: build_citation_id_def Let_def)
    then show ?thesis by (simp only: startswith_append)
  next
    case fallback
    then have "build_citation_id node_type num identifier =
        build_citation_fallback num identifier"
      by (auto simp add: build_citation_id_def Let_def)
    then show ?thesis by (simp only: build_citation_fallback_prefix)
  qed
qed

lemma subtitle_prefix_is_section_prefix:
  "startswith part ''st'' \<or> startswith part ''sch'' \<or> startswith part ''spt''
     \<Longrightarrow> startswith part ''s''"
  by (cases part) (auto simp: startswith_def)

text \<open>
  Claim C2. The claim says that a segment with a subtitle, subchapter or subpart prefix is
  skipped. The loop tests \<^verbatim>\<open>part.startswith("s")\<close> before the branches for
  \<^verbatim>\<open>"st"\<close>, \<^verbatim>\<open>"sch"\<close> and \<^verbatim>\<open>"spt"\<close>, which therefore never run: the subtitle segment
  \<^verbatim>\<open>stA\<close> is read as a section marker and contributes \<^verbatim>\<open>tA\<close>.
\<close>

theorem build_citation_id_subtitle_segment:
  "build_citation_id SUBTITLE (Some ''Subtitle A'') ''/us/usc/t26/stA'' = ''26 USC tA''"
  by code_simp

lemma build_citation_id_example:
  "build_citation_id SUBSECTION num ''/us/usc/t26/s162/a'' = ''26 USC 162(a)''"
  by (simp add: build_citation_id_def strip_chars_def strip_with_def startswith_def)

section \<open>Text normalisation\<close>

lemma collapse_ws_nonspace: "\<not> is_space c \<Longrightarrow> collapse_ws (c # cs) = c # collapse_ws cs"
  by simp

lemma dropWhile_space_cases:
  "dropWhile is_space cs = [] \<or> (\<exists>d r. dropWhile is_space cs = d # r \<and> \<not> is_space d)"
  by (metis hd_dropWhile list.exhaust list.sel(1))

lemma single_spaced_collapse_ws: "single_spaced (collapse_ws u)"
proof (induction u rule: collapse_ws.induct)
  case 1
  show ?case by simp
next
  case (2 c cs)
  show ?case
  proof (cases "is_space c")
    case True
    from dropWhile_space_cases [of cs] show ?thesis
    proof
      assume "dropWhile is_space cs = []"
      with True show ?thesis by (simp del: dropWhile_eq_Nil_conv)
    next
      assume "\<exists>d r. dropWhile is_space cs = d # r \<and> \<not> is_space d"
      then obtain d r where d: "dropWhile is_space cs = d # r" "\<not> is_space d" by blast
      with 2(1) [OF True] have "single_spaced (d # collapse_ws r)" by simp
      with True d show ?thesis by simp
    qed
  next
    case False
    with 2(2) have ih: "single_spaced (collapse_ws cs)" by simp
    show ?thesis
    proof (cases "collapse_ws cs")
      case Nil
      with False show ?thesis by simp
    next
      case (Cons d r)
      with False ih show ?thesis by simp
    qed
  qed
qed

lemma collapse_ws_single_spaced: "single_spaced t \<Longrightarrow> collapse_ws t = t"
  by (induction t rule: single_spaced.induct) auto

lemma single_spaced_tl: "single_spaced (c # t) \<Longrightarrow> single_spaced t"
  by (cases t) auto

lemma single_spaced_append: "single_spaced (xs @ ys) \<Longrightarrow> single_spaced xs \<and> single_spaced ys"
proof (induction xs rule: single_spaced.induct)
  case 1
  then show ?case by simp
next
  case (2 c)
  then show ?case by (cases ys) auto
next
  case (3 c d r)
  then show ?case by auto
qed

lemma strip_with_prefix_suffix: "\<exists>xs ys. s = xs @ strip_with p s @ ys"
proof -
  have 1: "s = takeWhile p s @ dropWhile p s" by simp
  let ?u = "dropWhile p s"
  have "rev ?u = takeWhile p (rev ?u) @ dropWhile p (rev ?u)" by simp
  then have "?u = rev (dropWhile p (rev ?u)) @ rev (takeWhile p (rev ?u))"
    by (metis rev_append rev_rev_ident)
  with 1 show ?thesis unfolding strip_with_def by metis
qed

lemma single_spaced_strip: "single_spaced t \<Longrightarrow> single_spaced (strip t)"
  unfolding strip_def using strip_with_prefix_suffix [of t is_space]
  by (metis single_spaced_append)

lemma strip_with_idem: "strip_with p (strip_with p s) = strip_with p s"
proof -
  let ?u = "dropWhile p s"
  let ?r = "rev (dropWhile p (rev ?u))"
  have r: "strip_with p s = ?r" by (simp add: strip_with_def)
  show ?thesis
  proof (cases "?r = []")
    case True
    with r have e: "strip_with p s = []" by (simp only:)
    show ?thesis unfolding e by (simp add: strip_with_def)
  next
    case False
    then have ne: "dropWhile p (rev ?u) \<noteq> []" by simp
    then have lastr: "\<not> p (hd (dropWhile p (rev ?u)))" by (rule hd_dropWhile)
    from ne have une: "?u \<noteq> []" by (metis dropWhile.simps(1) rev.simps(1))
    then have hdu: "\<not> p (hd ?u)" by (rule hd_dropWhile)
    have "?u = ?r @ rev (takeWhile p (rev ?u))"
      by (metis rev_append rev_rev_ident takeWhile_dropWhile_id)
    with False have "hd ?r = hd ?u" by (metis hd_append2)
    with hdu False have d1: "dropWhile p ?r = ?r" by (cases ?r) auto
    have "rev ?r = dropWhile p (rev ?u)" by simp
    with lastr ne have d2: "dropWhile p (rev ?r) = rev ?r"
      by (cases "dropWhile p (rev ?u)") auto
    from d1 d2 have "strip_with p ?r = ?r" unfolding strip_with_def by simp
    with r show ?thesis by simp
  qed
qed

text \<open>
  Claim C7, as stated, fails: decoding character references is not idempotent. The text
  \<^verbatim>\<open>&amp;amp;\<close> is cleaned to \<^verbatim>\<open>&amp;\<close>, and cleaning that again gives \<^verbatim>\<open>&\<close>.
\<close>

theorem clean_text_not_idempotent:
  "clean_text charref_sub_amp (clean_text charref_sub_amp ''&amp;amp;'')
     \<noteq> clean_text charref_sub_amp ''&amp;amp;''"
  by code_simp

text \<open>
  Claim C7, amended. When decoding leaves the cleaned text as it is (in particular when
  the cleaned text holds no ampersand), cleaning it again changes nothing: collapsing
  white space and trimming are idempotent.
\<close>

theorem clean_text_idempotent:
  assumes "html_unescape sub (clean_text sub s) = clean_text sub s"
  shows "clean_text sub (clean_text sub s) = clean_text sub s"
proof -
  let ?t = "clean_text sub s"
  have t: "?t = strip (collapse_ws (html_unescape sub s))" by (simp add: clean_text_def)
  have "single_spaced ?t"
    unfolding t by (rule single_spaced_strip) (rule single_spaced_collapse_ws)
  then have c: "collapse_ws ?t = ?t" by (rule collapse_ws_single_spaced)
  have st: "strip ?t = ?t" unfolding t strip_def by (rule strip_with_idem)
  have "clean_text sub ?t = strip (collapse_ws (html_unescape sub ?t))"
    by (simp add: clean_text_def)
  also have "\<dots> = strip (collapse_ws ?t)" using assms by simp
  also have "\<dots> = ?t" using c st by simp
  finally show ?thesis .
qed

theorem clean_text_idempotent_witness:
  "html_unescape charref_sub_amp (clean_text charref_sub_amp ''  a   b '')
     = clean_text charref_sub_amp ''  a   b '' \<and>
   clean_text charref_sub_amp (clean_text charref_sub_amp ''  a   b '')
     = clean_text charref_sub_amp ''  a   b ''"
  using clean_text_idempotent [of charref_sub_amp "''  a   b ''"] by code_simp

section \<open>The counters of the tree builder\<close>

text \<open>
  Each call of \<^verbatim>\<open>_parse_element\<close> and each run of its loop that returns leaves the
  parser state that counting the created nodes in pre-order gives.
\<close>

lemma counted_Nil: "counted [] s = s"
  by (cases s) (simp add: counted_def)

lemma counted_append: "counted (a @ b) s = counted b (counted a s)"
  by (simp add: counted_def)

lemma track_counted:
  "n_node_type n = nt \<Longrightarrow> n_status n = st \<Longrightarrow> n_id n = i \<Longrightarrow> track nt st i s = counted [n] s"
  by (auto simp: track_def counted_def is_section_def is_repealed_section_def)

lemma new_node_fields:
  assumes "new_node sub e nt pp pid = Inr node"
  shows "n_node_type node = nt" and "n_children node = []" and "n_parent_id node = pid"
    and "determine_status sub e = Inr (n_status node)"
    and "extract_text sub e = Inr (n_text node)"
    and "n_identifier node = attr_get e ''identifier'' []"
    and "n_num node = get_text_content e ''num''"
    and "n_heading node = get_text_content e ''heading''"
    and "n_id node = build_citation_id nt (n_num node) (n_identifier node)"
    and "n_references node = extract_references (n_text node)"
  using assms by (auto simp: new_node_def Let_def split: sum.splits)

lemma append_children_fields:
  "n_node_type (append_children n cs) = n_node_type n"
  "n_status (append_children n cs) = n_status n"
  "n_id (append_children n cs) = n_id n"
  "n_children (append_children n cs) = n_children n @ cs"
  by (simp_all add: append_children_def)

lemma preorder_eq: "preorder n = n # forest (n_children n)"
  by (cases n) (simp add: forest_def)

lemma forest_simps: "forest [] = []" "forest (n # ns) = preorder n @ forest ns"
  by (simp_all add: forest_def)

lemma counted_Cons: "counted (n # ns) s = counted ns (counted [n] s)"
  using counted_append [of "[n]" ns s] by simp

lemma counted_head_cong:
  "n_node_type n = n_node_type m \<Longrightarrow> n_status n = n_status m \<Longrightarrow> n_id n = n_id m
     \<Longrightarrow> counted [n] s = counted [m] s"
  by (simp add: counted_def is_section_def is_repealed_section_def)

lemma no_type_for_empty_name: "ELEMENT_TO_NODE_TYPE [] = None"
  by (simp add: ELEMENT_TO_NODE_TYPE_def)

lemma parse_element_cases:
  assumes "parse_element sub mx e pp pid s = Inr r"
  obtains (skipped) "r = (None, s)" "limit_hit mx s \<or> \<not> is_structural e"
  | (made) nt node rc where "\<not> limit_hit mx s" "ELEMENT_TO_NODE_TYPE (e_local e) = Some nt"
      "new_node sub e nt pp pid = Inr node"
      "parse_children sub mx (e_kids e) (n_hierarchical_path node) (n_id node)
         (track nt (n_status node) (n_id node) s) = Inr rc"
      "r = (Some (append_children node (fst rc)), snd rc)"
  using assms
  by (cases e)
     (auto simp: is_structural_def no_type_for_empty_name
           split: if_splits option.splits sum.splits)

lemma parse_children_Cons_cases:
  assumes "parse_children sub mx (child # rest) pp prid s = Inr rs"
  obtains (skip) "\<not> is_structural child" "parse_children sub mx rest pp prid s = Inr rs"
  | (step) r rs' where "is_structural child"
      "parse_element sub mx child pp (Some prid) s = Inr r"
      "parse_children sub mx rest pp prid (snd r) = Inr rs'"
      "rs = (case fst r of None \<Rightarrow> rs' | Some n \<Rightarrow> (n # fst rs', snd rs'))"
  using assms
  by (auto split: if_splits option.splits sum.splits)

lemma forest_step:
  "forest (fst (case r of None \<Rightarrow> rs | Some n \<Rightarrow> (n # fst rs, snd rs)))
     = opt_preorder r @ forest (fst rs)"
  "snd (case r of None \<Rightarrow> rs | Some n \<Rightarrow> (n # fst rs, snd rs)) = snd rs"
  by (cases r; simp add: opt_preorder_def forest_simps)+

lemma preorder_made:
  assumes "new_node sub e nt pp pid = Inr node"
  shows "preorder (append_children node cs) = append_children node cs # forest cs"
  by (subst preorder_eq) (simp add: append_children_fields new_node_fields(2) [OF assms])

lemma parse_counted:
  "\<forall>r. parse_element sub mx e pp pid s = Inr r \<longrightarrow> snd r = counted (opt_preorder (fst r)) s"
  "\<forall>rs. parse_children sub mx es pp prid s = Inr rs \<longrightarrow> snd rs = counted (forest (fst rs)) s"
proof (induction sub mx e pp pid s and sub mx es pp prid s rule: parse_element_parse_children.induct)
  case (1 sub mx ns tag attrs etext kids tail parent_path parent_id s)
  let ?e = "Elem ns tag attrs etext kids tail"
  show ?case
  proof (intro allI impI)
    fix r assume p: "parse_element sub mx ?e parent_path parent_id s = Inr r"
    from p show "snd r = counted (opt_preorder (fst r)) s"
    proof (cases rule: parse_element_cases)
      case skipped
      then show ?thesis by (simp add: opt_preorder_def counted_Nil)
    next
      case (made nt node rc)
      let ?n = "append_children node (fst rc)"
      let ?s' = "track nt (n_status node) (n_id node) s"
      from made(2) have nt: "ELEMENT_TO_NODE_TYPE tag = Some nt" by simp
      from made(4) have pc: "parse_children sub mx kids (n_hierarchical_path node) (n_id node) ?s' = Inr rc"
        by simp
      from 1 [OF made(1) nt made(3)] pc have ih: "snd rc = counted (forest (fst rc)) ?s'" by blast
      have "?s' = counted [node] s"
        by (rule track_counted) (simp_all add: new_node_fields(1) [OF made(3)])
      also have "\<dots> = counted [?n] s"
        by (rule counted_head_cong) (simp_all add: append_children_fields)
      finally have s': "?s' = counted [?n] s" .
      have "counted (preorder ?n) s = counted (forest (fst rc)) (counted [?n] s)"
        using counted_append [of "[?n]" "forest (fst rc)" s]
        by (simp only: preorder_made [OF made(3)] append_Cons append_Nil)
      also have "\<dots> = counted (forest (fst rc)) ?s'" by (simp only: s' [symmetric])
      also have "\<dots> = snd rc" by (simp only: ih [symmetric])
      finally show ?thesis by (simp add: made(5) opt_preorder_def)
    qed
  qed
next
  case (2 sub mx b t parent_path parent_id s)
  show ?case by (simp add: opt_preorder_def counted_Nil)
next
  case (3 sub mx b t parent_path parent_id s)
  show ?case by (simp add: opt_preorder_def counted_Nil)
next
  case (4 sub mx parent_path parent_id s)
  show ?case by (simp add: forest_simps counted_Nil)
next
  case (5 sub mx child rest parent_path parent_id s)
  show ?case
  proof (intro allI impI)
    fix rs assume p: "parse_children sub mx (child # rest) parent_path parent_id s = Inr rs"
    from p show "snd rs = counted (forest (fst rs)) s"
    proof (cases rule: parse_children_Cons_cases)
      case skip
      with 5(3) show ?thesis by blast
    next
      case (step r rs')
      from 5(1) [OF step(1)] step(2) have ih1: "snd r = counted (opt_preorder (fst r)) s" by blast
      from 5(2) [OF step(1) step(2)] step(3)
      have ih2: "snd rs' = counted (forest (fst rs')) (snd r)" by blast
      have a: "snd rs = snd rs'" by (simp only: step(4) forest_step(2))
      have b: "forest (fst rs) = opt_preorder (fst r) @ forest (fst rs')"
        by (simp only: step(4) forest_step(1))
      have "counted (forest (fst rs)) s
          = counted (forest (fst rs')) (counted (opt_preorder (fst r)) s)"
        by (simp only: b counted_append)
      also have "\<dots> = counted (forest (fst rs')) (snd r)" by (simp only: ih1)
      also have "\<dots> = snd rs'" by (simp only: ih2)
      finally show ?thesis by (simp only: a)
    qed
  qed
qed

lemma parse_tax_code_Inr:
  assumes "parse_tax_code sub f mx = Inr r"
  obtains d t n s' where "f = Document d" "find_title d = Some t"
    "parse_element sub mx t [] None init_pstate = Inr (Some n, s')"
    "root r = n" "total_sections r = sections_parsed s'" "total_nodes r = p_total_nodes s'"
    "repealed_sections r = p_repealed_sections s'"
  using assms
  by (auto simp: parse_tax_code_def parse_file_def
           split: xml_file.splits option.splits prod.splits sum.splits)

lemma parse_result_counted:
  assumes "parse_tax_code sub f mx = Inr r"
  shows "total_nodes r = int (length (preorder (root r)))"
    and "total_sections r = int (length (filter is_section (preorder (root r))))"
    and "repealed_sections r = map n_id (filter is_repealed_section (preorder (root r)))"
proof -
  from assms obtain d t n s'
    where p: "parse_element sub mx t [] None init_pstate = Inr (Some n, s')"
    and r: "root r = n" "total_sections r = sections_parsed s'" "total_nodes r = p_total_nodes s'"
    "repealed_sections r = p_repealed_sections s'"
    by (rule parse_tax_code_Inr)
  from parse_counted(1) [of sub mx t "[]" None init_pstate] p
  have "s' = counted (preorder n) init_pstate" by (simp add: opt_preorder_def)
  with r show "total_nodes r = int (length (preorder (root r)))"
    and "total_sections r = int (length (filter is_section (preorder (root r))))"
    and "repealed_sections r = map n_id (filter is_repealed_section (preorder (root r)))"
    by (simp_all add: counted_def init_pstate_def)
qed

text \<open>
  Claim C4. When \<^verbatim>\<open>parse_tax_code\<close> returns a document, \<^verbatim>\<open>total_nodes\<close> is the number
  of nodes of the tree under \<^verbatim>\<open>root\<close>, the root included, and \<^verbatim>\<open>total_sections\<close> is the
  number of those nodes whose type is \<^verbatim>\<open>section\<close>. (\<^verbatim>\<open>parse_tax_code\<close> makes a new
  parser for each document, so the counters start at zero.)
\<close>

theorem parse_totals_match_tree:
  assumes "parse_tax_code sub f mx = Inr r"
  shows "total_nodes r = int (length (preorder (root r))) \<and>
         total_sections r = int (length (filter is_section (preorder (root r))))"
  using parse_result_counted(1,2) [OF assms] by (rule conjI)

theorem parse_totals_match_tree_witness:
  "parse_tax_code charref_sub_amp (Document doc_repealed) (Some 5)
     = Inr (projr (parse_tax_code charref_sub_amp (Document doc_repealed) (Some 5))) \<and>
   total_nodes (projr (parse_tax_code charref_sub_amp (Document doc_repealed) (Some 5))) = 2 \<and>
   length (preorder (root (projr (parse_tax_code charref_sub_amp (Document doc_repealed) (Some 5))))) = 2 \<and>
   total_sections (projr (parse_tax_code charref_sub_amp (Document doc_repealed) (Some 5))) = 1"
proof -
  let ?p = "parse_tax_code charref_sub_amp (Document doc_repealed) (Some 5)"
  have h: "?p = Inr (projr ?p)" by code_simp
  have v: "total_nodes (projr ?p) = 2" "total_sections (projr ?p) = 1" by code_simp+
  from parse_totals_match_tree [OF h] v h show ?thesis by simp
qed

section \<open>The nodes of the tree and the elements of the document\<close>

lemma limit_hit_counted: "limit_hit mx s \<Longrightarrow> limit_hit mx (counted ns s)"
  by (auto simp: limit_hit_def counted_def split: option.splits)

lemma limit_hit_element: "limit_hit mx s \<Longrightarrow> parse_element sub mx e pp pid s = Inr (None, s)"
  by (cases e) simp_all

lemma limit_hit_children: "limit_hit mx s \<Longrightarrow> parse_children sub mx es pp prid s = Inr ([], s)"
  by (induction es) (simp_all add: limit_hit_element)

lemma struct_desc_element:
  "is_element e \<Longrightarrow> struct_desc e = e # concat (map visited (e_kids e))"
proof (cases e)
  case (Elem ns name attrs etext kids tail)
  have "concat (map struct_desc (filter is_structural kids)) = concat (map visited kids)"
    by (induction kids) (simp_all add: visited_def)
  with Elem show ?thesis by simp
qed (simp_all add: is_element_def)

lemma structural_is_element: "is_structural e \<Longrightarrow> is_element e"
  by (cases e) (simp_all add: is_structural_def is_element_def no_type_for_empty_name)

lemma built_from_made:
  assumes "new_node sub e nt pp pid = Inr node" and "ELEMENT_TO_NODE_TYPE (e_local e) = Some nt"
  shows "built_from sub (append_children node cs) e"
  using new_node_fields [OF assms(1)] assms(2)
  by (simp add: built_from_def append_children_def)

text \<open>
  The nodes made for an element correspond, in pre-order, to a prefix of the elements a
  parse without cutoff visits; the prefix is the whole list unless the cutoff was
  reached.
\<close>

lemma parse_visits:
  "\<forall>r. parse_element sub mx e pp pid s = Inr r \<longrightarrow>
     list_all2 (built_from sub) (opt_preorder (fst r))
       (take (length (opt_preorder (fst r))) (visited e)) \<and>
     (length (opt_preorder (fst r)) = length (visited e) \<or> limit_hit mx (snd r))"
  "\<forall>rs. parse_children sub mx es pp prid s = Inr rs \<longrightarrow>
     list_all2 (built_from sub) (forest (fst rs))
       (take (length (forest (fst rs))) (concat (map visited es))) \<and>
     (length (forest (fst rs)) = length (concat (map visited es)) \<or> limit_hit mx (snd rs))"
proof (induction sub mx e pp pid s and sub mx es pp prid s rule: parse_element_parse_children.induct)
  case (1 sub mx ns tag attrs etext kids tail parent_path parent_id s)
  let ?e = "Elem ns tag attrs etext kids tail"
  show ?case
  proof (intro allI impI)
    fix r assume p: "parse_element sub mx ?e parent_path parent_id s = Inr r"
    from p show "list_all2 (built_from sub) (opt_preorder (fst r))
       (take (length (opt_preorder (fst r))) (visited ?e)) \<and>
     (length (opt_preorder (fst r)) = length (visited ?e) \<or> limit_hit mx (snd r))"
    proof (cases rule: parse_element_cases)
      case skipped
      then show ?thesis by (auto simp: opt_preorder_def visited_def)
    next
      case (made nt node rc)
      let ?n = "append_children node (fst rc)"
      from made(2) have nt: "ELEMENT_TO_NODE_TYPE tag = Some nt" by simp
      from made(4) have pc: "parse_children sub mx kids (n_hierarchical_path node) (n_id node)
          (track nt (n_status node) (n_id node) s) = Inr rc" by simp
      from 1 [OF made(1) nt made(3)] pc
      have ih: "list_all2 (built_from sub) (forest (fst rc))
            (take (length (forest (fst rc))) (concat (map visited kids)))"
        and full: "length (forest (fst rc)) = length (concat (map visited kids))
            \<or> limit_hit mx (snd rc)"
        by blast+
      have v: "visited ?e = ?e # concat (map visited kids)"
        using struct_desc_element [of ?e] nt
        by (simp add: visited_def is_structural_def is_element_def)
      have b: "built_from sub ?n ?e" by (rule built_from_made [OF made(3) made(2)])
      have pre: "opt_preorder (Some ?n) = ?n # forest (fst rc)"
        by (simp add: opt_preorder_def preorder_made [OF made(3)])
      show ?thesis unfolding made(5) fst_conv snd_conv pre v
        using ih b full by simp
    qed
  qed
next
  case (2 sub mx b t parent_path parent_id s)
  show ?case by (simp add: opt_preorder_def visited_def is_structural_def no_type_for_empty_name)
next
  case (3 sub mx b t parent_path parent_id s)
  show ?case by (simp add: opt_preorder_def visited_def is_structural_def no_type_for_empty_name)
next
  case (4 sub mx parent_path parent_id s)
  show ?case by (simp add: forest_simps)
next
  case (5 sub mx child rest parent_path parent_id s)
  show ?case
  proof (intro allI impI)
    fix rs assume p: "parse_children sub mx (child # rest) parent_path parent_id s = Inr rs"
    from p show "list_all2 (built_from sub) (forest (fst rs))
       (take (length (forest (fst rs))) (concat (map visited (child # rest)))) \<and>
     (length (forest (fst rs)) = length (concat (map visited (child # rest)))
        \<or> limit_hit mx (snd rs))"
    proof (cases rule: parse_children_Cons_cases)
      case skip
      from skip(1) have "visited child = []" by (simp add: visited_def)
      with 5(3) [OF skip(1)] skip(2) show ?thesis by simp
    next
      case (step r rs')
      let ?A = "visited child" and ?B = "concat (map visited rest)"
      let ?P = "opt_preorder (fst r)" and ?Q = "forest (fst rs')"
      from 5(1) [OF step(1)] step(2)
      have ih1: "list_all2 (built_from sub) ?P (take (length ?P) ?A)"
        and full1: "length ?P = length ?A \<or> limit_hit mx (snd r)" by blast+
      from 5(2) [OF step(1) step(2)] step(3)
      have ih2: "list_all2 (built_from sub) ?Q (take (length ?Q) ?B)"
        and full2: "length ?Q = length ?B \<or> limit_hit mx (snd rs')" by blast+
      have a: "snd rs = snd rs'" by (simp only: step(4) forest_step(2))
      have b: "forest (fst rs) = ?P @ ?Q" by (simp only: step(4) forest_step(1))
      from ih1 have le: "length ?P \<le> length ?A"
        by (auto dest!: list_all2_lengthD)
      show ?thesis
      proof (cases "length ?P = length ?A")
        case True
        with ih1 ih2 have "list_all2 (built_from sub) (?P @ ?Q)
            (take (length (?P @ ?Q)) (?A @ ?B))"
          by (simp add: list_all2_appendI)
        with full2 True show ?thesis by (simp add: a b)
      next
        case False
        with full1 have hit: "limit_hit mx (snd r)" by blast
        from limit_hit_children [OF hit] step(3) have e: "rs' = ([], snd r)" by simp
        from ih1 le have "list_all2 (built_from sub) (?P @ ?Q)
            (take (length (?P @ ?Q)) (?A @ ?B))"
          by (simp add: e forest_simps)
        with hit show ?thesis by (simp add: a b e)
      qed
    qed
  qed
qed

section \<open>Repealed sections\<close>

lemma startswith_iff: "startswith s p \<longleftrightarrow> (\<exists>v. s = p @ v)"
  unfolding startswith_def
  by (metis append_eq_conv_conj append_take_drop_id)

lemma py_in_iff: "py_in p s \<longleftrightarrow> contains s p"
proof (induction s)
  case Nil
  show ?case by (simp add: contains_def)
next
  case (Cons c cs)
  have "contains (c # cs) p \<longleftrightarrow> (\<exists>v. c # cs = p @ v) \<or> contains cs p"
  proof
    assume "contains (c # cs) p"
    then obtain u v where uv: "c # cs = u @ p @ v" unfolding contains_def by blast
    show "(\<exists>v. c # cs = p @ v) \<or> contains cs p"
    proof (cases u)
      case Nil
      with uv show ?thesis by auto
    next
      case (Cons a u')
      with uv have "cs = u' @ p @ v" by simp
      then show ?thesis unfolding contains_def by blast
    qed
  next
    assume "(\<exists>v. c # cs = p @ v) \<or> contains cs p"
    then show "contains (c # cs) p"
    proof
      assume "\<exists>v. c # cs = p @ v"
      then obtain v where "c # cs = [] @ p @ v" by auto
      then show ?thesis unfolding contains_def by blast
    next
      assume "contains cs p"
      then obtain u v where "cs = u @ p @ v" unfolding contains_def by blast
      then have "c # cs = (c # u) @ p @ v" by simp
      then show ?thesis unfolding contains_def by blast
    qed
  qed
  with Cons show ?case by (simp add: startswith_iff)
qed

lemma contains_lower: "contains s p \<Longrightarrow> contains (lower s) (lower p)"
  unfolding contains_def lower_def by (metis map_append)

lemma contains_prefix: "contains s (p @ q) \<Longrightarrow> contains s p"
  unfolding contains_def by (metis append.assoc)

lemma repealed_marker:
  assumes "py_in ''[Repealed]'' t"
  shows "py_in ''[repealed'' (lower t)"
proof -
  from assms have "contains (lower t) (lower ''[Repealed]'')"
    by (simp only: py_in_iff contains_lower)
  moreover have "lower ''[Repealed]'' = ''[repealed'' @ '']''" by code_simp
  ultimately have "contains (lower t) ''[repealed''" by (simp only: contains_prefix)
  then show ?thesis by (simp only: py_in_iff)
qed

lemma lower_empty_attr:
  "\<not> py_in ''repeal'' (lower []) \<and> \<not> py_in ''expired'' (lower []) \<and>
   \<not> py_in ''reserved'' (lower [])"
  by (simp add: lower_def)

lemma status_of_marked_text:
  assumes "map_of (e_attrs e) ''status'' = None" and "extract_text sub e = Inr tx"
    and "py_in ''[Repealed]'' tx"
  shows "determine_status sub e = Inr REPEALED"
proof -
  from assms(1) have "attr_get e ''status'' [] = []" by (simp add: attr_get_def)
  moreover from assms(3) have "py_in ''[repealed'' (lower tx)" by (rule repealed_marker)
  ultimately show ?thesis
    using lower_empty_attr assms(2) by (simp add: determine_status_def Let_def)
qed

lemma find_has_tag: "find (has_tag ns name) xs = Some t \<Longrightarrow> e_local t = name"
  by (auto simp: find_Some_iff has_tag_def)

lemma find_title_local: "find_title d = Some t \<Longrightarrow> e_local t = ''title''"
  by (auto simp: find_title_def Let_def or_else_def find_child_def find_desc_def
           split: option.splits dest: find_has_tag)

lemma title_structural: "e_local t = ''title'' \<Longrightarrow> is_structural t"
  by (simp add: is_structural_def ELEMENT_TO_NODE_TYPE_def)

lemma limit_hit_total:
  "limit_hit mx s \<longleftrightarrow> (\<exists>k. mx = Some k \<and> k \<noteq> 0 \<and> k \<le> sections_parsed s)"
  by (auto simp: limit_hit_def split: option.splits)

text \<open>
  Claim C5, as stated, fails: a repealed node that is not a section is not recorded. In
  \<open>doc_repealed\<close> the title is repealed by its attribute, and its id is missing from
  \<^verbatim>\<open>repealed_sections\<close>.
\<close>

theorem repealed_title_not_listed:
  "n_node_type (root (projr (parse_tax_code charref_sub_amp (Document doc_repealed) None))) = TITLE \<and>
   n_status (root (projr (parse_tax_code charref_sub_amp (Document doc_repealed) None))) = REPEALED \<and>
   n_id (root (projr (parse_tax_code charref_sub_amp (Document doc_repealed) None)))
     \<notin> set (repealed_sections (projr (parse_tax_code charref_sub_amp (Document doc_repealed) None)))"
  by code_simp

text \<open>
  Claim C5, amended. When \<^verbatim>\<open>parse_tax_code\<close> returns a document, \<^verbatim>\<open>repealed_sections\<close>
  holds the ids of exactly the nodes of type \<^verbatim>\<open>section\<close> whose status is repealed, in
  pre-order, which is the order of their creation. The nodes of the tree are, in
  pre-order, the nodes built from the structural elements under the title of the parsed
  document, in document order (all of them, unless a cutoff was reached). Each node built
  from an element that has no \<^verbatim>\<open>status\<close> attribute and whose extracted text contains
  "[Repealed]" has the status repealed, and when it is a section its id is in
  \<^verbatim>\<open>repealed_sections\<close> of this very result.
\<close>

theorem repealed_sections_listed:
  assumes "parse_tax_code sub f mx = Inr r"
  shows "repealed_sections r = map n_id (filter is_repealed_section (preorder (root r))) \<and>
         (\<exists>d t. f = Document d \<and> find_title d = Some t \<and>
            list_all2
              (\<lambda>n e. built_from sub n e \<and>
                 (map_of (e_attrs e) ''status'' = None \<and> py_in ''[Repealed]'' (n_text n) \<longrightarrow>
                    n_status n = REPEALED \<and>
                    (n_node_type n = SECTION \<longrightarrow> n_id n \<in> set (repealed_sections r))))
              (preorder (root r)) (take (length (preorder (root r))) (struct_desc t)) \<and>
            (length (preorder (root r)) = length (struct_desc t) \<or>
               (\<exists>k. mx = Some k \<and> k \<noteq> 0 \<and> k \<le> total_sections r)))"
proof -
  from assms obtain d t n s' where f: "f = Document d" and t: "find_title d = Some t"
    and p: "parse_element sub mx t [] None init_pstate = Inr (Some n, s')"
    and r: "root r = n" "total_sections r = sections_parsed s'"
    by (rule parse_tax_code_Inr)
  have rep: "repealed_sections r = map n_id (filter is_repealed_section (preorder (root r)))"
    using assms by (rule parse_result_counted(3))
  from t have "visited t = struct_desc t"
    by (simp add: visited_def find_title_local title_structural)
  with parse_visits(1) [of sub mx t "[]" None init_pstate] p
  have built: "list_all2 (built_from sub) (preorder n) (take (length (preorder n)) (struct_desc t))"
    and full: "length (preorder n) = length (struct_desc t) \<or> limit_hit mx s'"
    by (simp_all add: opt_preorder_def)
  let ?R = "\<lambda>n e. built_from sub n e \<and>
                 (map_of (e_attrs e) ''status'' = None \<and> py_in ''[Repealed]'' (n_text n) \<longrightarrow>
                    n_status n = REPEALED \<and>
                    (n_node_type n = SECTION \<longrightarrow> n_id n \<in> set (repealed_sections r)))"
  from built have "list_all2 ?R (preorder n) (take (length (preorder n)) (struct_desc t))"
  proof (rule list.rel_mono_strong)
    fix x e
    assume x: "x \<in> set (preorder n)" and b: "built_from sub x e"
    show "?R x e"
    proof (intro conjI impI)
      show "built_from sub x e" by (rule b)
    next
      assume a: "map_of (e_attrs e) ''status'' = None \<and> py_in ''[Repealed]'' (n_text x)"
      from b have "extract_text sub e = Inr (n_text x)"
        and s: "determine_status sub e = Inr (n_status x)"
        by (simp_all add: built_from_def)
      with a have "determine_status sub e = Inr REPEALED"
        by (simp add: status_of_marked_text)
      with s show st: "n_status x = REPEALED" by simp
      assume "n_node_type x = SECTION"
      with st have "is_repealed_section x" by (simp add: is_repealed_section_def)
      with x r(1) show "n_id x \<in> set (repealed_sections r)"
        by (simp add: rep)
    qed
  qed
  moreover from full r(2)
  have "length (preorder n) = length (struct_desc t) \<or>
      (\<exists>k. mx = Some k \<and> k \<noteq> 0 \<and> k \<le> total_sections r)"
    by (simp add: limit_hit_total)
  ultimately show ?thesis using rep f t r(1) by blast
qed

theorem repealed_sections_listed_witness:
  "parse_tax_code charref_sub_amp (Document doc_repealed) None
     = Inr (projr (parse_tax_code charref_sub_amp (Document doc_repealed) None)) \<and>
   repealed_sections (projr (parse_tax_code charref_sub_amp (Document doc_repealed) None))
     = map n_id (filter is_repealed_section
         (preorder (root (projr (parse_tax_code charref_sub_amp (Document doc_repealed) None))))) \<and>
   repealed_sections (projr (parse_tax_code charref_sub_amp (Document doc_repealed) None))
     = [''26 USC 2''] \<and>
   map_of (e_attrs sec_repealed) ''status'' = None \<and>
   built_from charref_sub_amp
     (preorder (root (projr (parse_tax_code charref_sub_amp (Document doc_repealed) None))) ! 1)
     sec_repealed \<and>
   py_in ''[Repealed]''
     (n_text (preorder (root (projr (parse_tax_code charref_sub_amp (Document doc_repealed) None))) ! 1)) \<and>
   n_status (preorder (root (projr (parse_tax_code charref_sub_amp (Document doc_repealed) None))) ! 1)
     = REPEALED"
proof -
  let ?p = "parse_tax_code charref_sub_amp (Document doc_repealed) None"
  have h: "?p = Inr (projr ?p)" by code_simp
  have v: "repealed_sections (projr ?p) = [''26 USC 2'']" by code_simp
  have e: "map_of (e_attrs sec_repealed) ''status'' = None" by code_simp
  have b: "built_from charref_sub_amp (preorder (root (projr ?p)) ! 1) sec_repealed" by code_simp
  have m: "py_in ''[Repealed]'' (n_text (preorder (root (projr ?p)) ! 1))" by code_simp
  have s: "n_status (preorder (root (projr ?p)) ! 1) = REPEALED" by code_simp
  from repealed_sections_listed [OF h]
  have 1: "repealed_sections (projr ?p)
     = map n_id (filter is_repealed_section (preorder (root (projr ?p))))" by (rule conjunct1)
  from h 1 v e b m s show ?thesis by (intro conjI)
qed

section \<open>Status classification\<close>

text \<open>
  When \<^verbatim>\<open>_determine_status\<close> returns, it returns the first match of the chain: the
  attribute tests, then the tests on the extracted text, then \<^verbatim>\<open>ACTIVE\<close>. The value of
  the text is asked for only when no attribute test decides, and asking for it can
  raise.
\<close>

lemma determine_status_chain:
  "determine_status sub e =
     (let a = lower (attr_get e ''status'' [])
      in if contains a ''repeal'' then Inr REPEALED
         else if contains a ''expired'' then Inr EXPIRED
         else if contains a ''reserved'' then Inr RESERVED
         else (case extract_text sub e of
                 Inl err \<Rightarrow> Inl err
               | Inr extracted \<Rightarrow>
                   (let t = lower extracted
                    in if contains t ''[repealed'' \<or> contains t ''repealed.'' then Inr REPEALED
                       else if contains t ''[expired'' then Inr EXPIRED
                       else Inr ACTIVE)))"
  unfolding determine_status_def Let_def py_in_iff ..

text \<open>
  \<^verbatim>\<open>_extract_text\<close> hands every child that is neither structural nor metadata to
  \<^verbatim>\<open>_element_to_text\<close>, comments and processing instructions included. So an element
  without \<^verbatim>\<open>content\<close> child that holds a comment has no text: extraction raises, and so
  does the classification when no attribute decides.
\<close>

lemma collect_Inl:
  assumes "Inl err \<in> set rs" and "\<And>err'. Inl err' \<in> set rs \<Longrightarrow> err' = err"
  shows "collect rs = Inl err"
  using assms
proof (induction rs)
  case Nil
  from Nil(1) show ?case by (simp only: list.set empty_iff)
next
  case (Cons x rs)
  show ?case
  proof (cases x)
    case (Inl e)
    have "Inl e \<in> set (x # rs)" unfolding Inl by (rule list.set_intros(1))
    then have "e = err" by (rule Cons.prems(2))
    then show ?thesis unfolding Inl by (simp only: collect.simps)
  next
    case (Inr a)
    from Cons.prems(1) have "Inl err = x \<or> Inl err \<in> set rs" by (simp only: set_simps insert_iff)
    with Inr have m: "Inl err \<in> set rs" by blast
    have "collect rs = Inl err"
    proof (rule Cons.IH [OF m])
      fix err' assume "Inl err' \<in> set rs"
      then have "Inl err' \<in> set (x # rs)" by (rule list.set_intros(2))
      then show "err' = err" by (rule Cons.prems(2))
    qed
    then show ?thesis unfolding Inr by (simp only: collect.simps sum.case)
  qed
qed

lemma element_to_text_error: "element_to_text k = Inl err \<Longrightarrow> err = NotAnElementError"
  unfolding element_to_text_def Let_def
  by (cases "is_element k"; cases "e_local k = ''table''";
      cases "or_else (find_desc [] ''table'' k) (find_desc XHTML_NS ''table'' k)") simp_all

lemma extract_text_comment_child:
  assumes "or_else (find_child USLM_NS ''content'' e) (find_child [] ''content'' e) = None"
    and "k \<in> set (e_kids e)" and "\<not> is_element k"
  shows "extract_text sub e = Inl NotAnElementError"
proof -
  let ?ks = "filter (\<lambda>child. \<not> is_structural child \<and> \<not> is_metadata child) (e_kids e)"
  from assms(3) have "e_local k = []" by (cases k) (simp_all add: is_element_def)
  then have "\<not> is_structural k" "\<not> is_metadata k"
    by (simp_all add: is_structural_def is_metadata_def no_type_for_empty_name)
  with assms(2) have "k \<in> set ?ks" by simp
  moreover from assms(3) have "element_to_text k = Inl NotAnElementError"
    by (simp add: element_to_text_def)
  ultimately have "Inl NotAnElementError \<in> set (map element_to_text ?ks)"
    by (metis image_eqI set_map)
  moreover have "err' = NotAnElementError" if "Inl err' \<in> set (map element_to_text ?ks)" for err'
    using that by (auto dest: element_to_text_error [OF sym])
  ultimately have "collect (map element_to_text ?ks) = Inl NotAnElementError"
    by (rule collect_Inl)
  with assms(1) show ?thesis by (simp add: extract_text_def)
qed

lemma determine_status_comment_child:
  assumes "\<not> contains (lower (attr_get e ''status'' [])) ''repeal''"
    and "\<not> contains (lower (attr_get e ''status'' [])) ''expired''"
    and "\<not> contains (lower (attr_get e ''status'' [])) ''reserved''"
    and "or_else (find_child USLM_NS ''content'' e) (find_child [] ''content'' e) = None"
    and "k \<in> set (e_kids e)" and "\<not> is_element k"
  shows "determine_status sub e = Inl NotAnElementError"
proof -
  from assms(4-6) have "extract_text sub e = Inl NotAnElementError"
    by (rule extract_text_comment_child)
  with assms(1-3) show ?thesis
    unfolding determine_status_def Let_def py_in_iff by simp
qed

text \<open>
  Claim C6 fails on the code: status classification does not return a status for every
  element. For \<open>sec_comment\<close>, a section with an identifier, a body text and an XML
  comment, and with no \<^verbatim>\<open>status\<close> attribute, \<^verbatim>\<open>_determine_status\<close> raises the
  \<^verbatim>\<open>ValueError\<close> of \<^verbatim>\<open>itertext()\<close> instead of returning \<^verbatim>\<open>ACTIVE\<close>.
\<close>

theorem determine_status_raises_on_comment:
  "determine_status charref_sub_amp sec_comment = Inl NotAnElementError"
  by code_simp

section \<open>Failures of a parse\<close>

text \<open>
  An absent file and a document without title element fail at the top level, whatever
  the cutoff.
\<close>

lemma parse_fails_at_top_level:
  "parse_tax_code sub Absent mx = Inl FileNotFoundError"
  "find_title d = None \<Longrightarrow>
     parse_tax_code sub (Document d) mx = Inl (ValueError ''Could not find title element in XML'')"
  by (simp_all add: parse_tax_code_def parse_file_def)

text \<open>
  Claim C8 fails on the code: an anomaly inside a subtree can abort the parse. In
  \<open>doc_comment\<close> the title element is found, and the comment inside its section makes
  \<^verbatim>\<open>parse_tax_code\<close> raise instead of returning a document.
\<close>

theorem parse_aborts_on_comment:
  "find_title doc_comment \<noteq> None \<and>
   parse_tax_code charref_sub_amp (Document doc_comment) None = Inl NotAnElementError"
  by code_simp

section \<open>The cutoff\<close>

text \<open>
  The test \<^verbatim>\<open>self.max_sections and ...\<close> is false for the cutoff 0, so a parse with
  cutoff 0 is the parse without cutoff.
\<close>

lemma cutoff_zero_like_none:
  "mx = Some 0 \<longrightarrow>
     parse_element sub mx e pp pid s = parse_element sub None e pp pid s"
  "mx = Some 0 \<longrightarrow>
     parse_children sub mx es pp prid s = parse_children sub None es pp prid s"
proof (induction sub mx e pp pid s and sub mx es pp prid s rule: parse_element_parse_children.induct)
  case (1 sub mx ns tag attrs etext kids tail parent_path parent_id s)
  show ?case
  proof
    assume mx: "mx = Some 0"
    then have nohit: "\<not> limit_hit mx s" by (simp add: limit_hit_def)
    show "parse_element sub mx (Elem ns tag attrs etext kids tail) parent_path parent_id s
        = parse_element sub None (Elem ns tag attrs etext kids tail) parent_path parent_id s"
    proof (cases "ELEMENT_TO_NODE_TYPE tag")
      case None
      with mx show ?thesis by (simp add: limit_hit_def)
    next
      case (Some nt)
      show ?thesis
      proof (cases "new_node sub (Elem ns tag attrs etext kids tail) nt parent_path parent_id")
        case (Inl err)
        with mx Some show ?thesis by (simp add: limit_hit_def)
      next
        case (Inr node)
        from 1 [OF nohit Some Inr] mx
        have "parse_children sub mx kids (n_hierarchical_path node) (n_id node)
                (track nt (n_status node) (n_id node) s)
            = parse_children sub None kids (n_hierarchical_path node) (n_id node)
                (track nt (n_status node) (n_id node) s)" by blast
        with mx Some Inr show ?thesis by (simp add: limit_hit_def)
      qed
    qed
  qed
next
  case (2 sub mx b t parent_path parent_id s)
  show ?case by simp
next
  case (3 sub mx b t parent_path parent_id s)
  show ?case by simp
next
  case (4 sub mx parent_path parent_id s)
  show ?case by simp
next
  case (5 sub mx child rest parent_path parent_id s)
  show ?case
  proof
    assume mx: "mx = Some 0"
    show "parse_children sub mx (child # rest) parent_path parent_id s
        = parse_children sub None (child # rest) parent_path parent_id s"
    proof (cases "is_structural child")
      case False
      with 5(3) mx show ?thesis by simp
    next
      case True
      from 5(1) [OF True] mx
      have e: "parse_element sub mx child parent_path (Some parent_id) s
          = parse_element sub None child parent_path (Some parent_id) s" by blast
      show ?thesis
      proof (cases "parse_element sub mx child parent_path (Some parent_id) s")
        case (Inl err)
        with e have "parse_element sub None child parent_path (Some parent_id) s = Inl err"
          by simp
        with Inl True show ?thesis by simp
      next
        case (Inr r)
        with e have e0: "parse_element sub None child parent_path (Some parent_id) s = Inr r"
          by simp
        from 5(2) [OF True Inr] mx
        have "parse_children sub mx rest parent_path parent_id (snd r)
            = parse_children sub None rest parent_path parent_id (snd r)" by blast
        with e0 Inr True show ?thesis by simp
      qed
    qed
  qed
qed

lemma cutoff_zero_unbounded: "parse_tax_code sub f (Some 0) = parse_tax_code sub f None"
proof -
  have "parse_element sub (Some 0) e pp pid s = parse_element sub None e pp pid s"
    for e pp pid s
    using cutoff_zero_like_none(1) [of "Some 0" sub e pp pid s] by blast
  then show ?thesis by (simp only: parse_tax_code_def parse_file_def)
qed

text \<open>
  Claim C3 fails on the code for the cutoff 0: both sections of \<open>doc_two_sections\<close> are
  parsed, so \<^verbatim>\<open>total_sections\<close> is 2 and not at most 0.
\<close>

theorem cutoff_zero_is_no_cutoff:
  "parse_tax_code charref_sub_amp (Document doc_two_sections) (Some 0)
     = Inr (projr (parse_tax_code charref_sub_amp (Document doc_two_sections) (Some 0))) \<and>
   \<not> total_sections (projr (parse_tax_code charref_sub_amp (Document doc_two_sections) (Some 0))) \<le> 0"
  by code_simp

text \<open>
  For a cutoff \<open>k \<ge> 1\<close> the bound holds: the counter of sections is tested before each
  element and grows by at most one between two tests.
\<close>

lemma sections_parsed_track:
  "sections_parsed (track nt st i s) = sections_parsed s + (if nt = SECTION then 1 else 0)"
  by (simp add: track_def)

lemma cutoff_bounds_state:
  "\<forall>k r. mx = Some k \<longrightarrow> 1 \<le> k \<longrightarrow> sections_parsed s \<le> k \<longrightarrow>
     parse_element sub mx e pp pid s = Inr r \<longrightarrow> sections_parsed (snd r) \<le> k"
  "\<forall>k rs. mx = Some k \<longrightarrow> 1 \<le> k \<longrightarrow> sections_parsed s \<le> k \<longrightarrow>
     parse_children sub mx es pp prid s = Inr rs \<longrightarrow> sections_parsed (snd rs) \<le> k"
proof (induction sub mx e pp pid s and sub mx es pp prid s rule: parse_element_parse_children.induct)
  case (1 sub mx ns tag attrs etext kids tail parent_path parent_id s)
  let ?e = "Elem ns tag attrs etext kids tail"
  show ?case
  proof (intro allI impI)
    fix k r
    assume mx: "mx = Some k" and k: "1 \<le> k" and le: "sections_parsed s \<le> k"
      and p: "parse_element sub mx ?e parent_path parent_id s = Inr r"
    from p show "sections_parsed (snd r) \<le> k"
    proof (cases rule: parse_element_cases)
      case skipped
      with le show ?thesis by simp
    next
      case (made nt node rc)
      from made(2) have nt: "ELEMENT_TO_NODE_TYPE tag = Some nt" by simp
      from made(4) have pc: "parse_children sub mx kids (n_hierarchical_path node) (n_id node)
          (track nt (n_status node) (n_id node) s) = Inr rc" by simp
      from made(1) mx k have "sections_parsed s < k" by (simp add: limit_hit_def)
      then have "sections_parsed (track nt (n_status node) (n_id node) s) \<le> k"
        by (simp add: sections_parsed_track)
      with 1 [OF made(1) nt made(3)] mx k pc have "sections_parsed (snd rc) \<le> k" by blast
      with made(5) show ?thesis by simp
    qed
  qed
next
  case (2 sub mx b t parent_path parent_id s)
  show ?case by simp
next
  case (3 sub mx b t parent_path parent_id s)
  show ?case by simp
next
  case (4 sub mx parent_path parent_id s)
  show ?case by simp
next
  case (5 sub mx child rest parent_path parent_id s)
  show ?case
  proof (intro allI impI)
    fix k rs
    assume mx: "mx = Some k" and k: "1 \<le> k" and le: "sections_parsed s \<le> k"
      and p: "parse_children sub mx (child # rest) parent_path parent_id s = Inr rs"
    from p show "sections_parsed (snd rs) \<le> k"
    proof (cases rule: parse_children_Cons_cases)
      case skip
      with 5(3) mx k le show ?thesis by blast
    next
      case (step r rs')
      from 5(1) [OF step(1)] mx k le step(2) have "sections_parsed (snd r) \<le> k" by blast
      with 5(2) [OF step(1) step(2)] mx k step(3) have "sections_parsed (snd rs') \<le> k" by blast
      then show ?thesis by (simp only: step(4) forest_step(2))
    qed
  qed
qed

lemma cutoff_positive_bound:
  assumes "1 \<le> k" and "parse_tax_code sub f (Some k) = Inr r"
  shows "total_sections r \<le> k"
proof -
  from assms(2) obtain d t n s'
    where p: "parse_element sub (Some k) t [] None init_pstate = Inr (Some n, s')"
    and r: "total_sections r = sections_parsed s'"
    by (rule parse_tax_code_Inr)
  from cutoff_bounds_state(1) [of "Some k" init_pstate sub t "[]" None] assms(1) p
  have "sections_parsed s' \<le> k" by (simp add: init_pstate_def)
  with r show ?thesis by simp
qed

section \<open>Tables\<close>

lemma unescaped_pipes_append:
  "unescaped_pipes e (xs @ ys)
     = unescaped_pipes e xs + unescaped_pipes (if xs = [] then e else last xs = CHR 0x5C) ys"
  by (induction xs arbitrary: e) auto

lemma escape_pipes_Cons:
  "escape_pipes (c # cs) = (if c = CHR ''|'' then [CHR 0x5C, CHR ''|''] else [c]) @ escape_pipes cs"
  by (simp add: escape_pipes_def)

lemma unescaped_pipes_escape: "unescaped_pipes e (escape_pipes s) = 0"
proof (induction s arbitrary: e)
  case Nil
  show ?case by (simp add: escape_pipes_def)
next
  case (Cons c cs)
  then show ?case by (simp add: escape_pipes_Cons)
qed

lemma unescaped_pipes_joined:
  assumes "cells \<noteq> []" and "\<forall>c\<in>set cells. \<forall>e. unescaped_pipes e c = 0"
  shows "unescaped_pipes e (join '' | '' cells @ '' |'') = length cells"
  using assms
proof (induction "'' | ''" cells arbitrary: e rule: join.induct)
  case 1
  then show ?case by simp
next
  case (2 x)
  then show ?case by (simp add: unescaped_pipes_append)
next
  case (3 x y ys)
  from 3(3) have x: "\<And>e. unescaped_pipes e x = 0"
    and r: "\<forall>c\<in>set (y # ys). \<forall>e. unescaped_pipes e c = 0" by simp_all
  from 3(1) [OF _ r] have ih: "\<And>e. unescaped_pipes e (join '' | '' (y # ys) @ '' |'') = length (y # ys)"
    by simp
  have "join '' | '' (x # y # ys) @ '' |'' = x @ '' | '' @ (join '' | '' (y # ys) @ '' |'')"
    by simp
  then have "unescaped_pipes e (join '' | '' (x # y # ys) @ '' |'')
      = unescaped_pipes e x
        + unescaped_pipes (if x = [] then e else last x = CHR 0x5C)
            ('' | '' @ (join '' | '' (y # ys) @ '' |''))"
    by (simp only: unescaped_pipes_append)
  also have "\<dots> = 1 + unescaped_pipes False (join '' | '' (y # ys) @ '' |'')"
    by (simp add: x)
  finally show ?case using ih by simp
qed

lemma column_count_md_line:
  assumes "cells \<noteq> []" and "\<forall>c\<in>set cells. \<forall>e. unescaped_pipes e c = 0"
  shows "column_count (md_line cells) = length cells"
proof -
  have "unescaped_pipes False (md_line cells)
      = 1 + unescaped_pipes False (join '' | '' cells @ '' |'')"
    by (simp add: md_line_def)
  with unescaped_pipes_joined [OF assms] show ?thesis by (simp add: column_count_def)
qed

lemma table_rows_cells:
  assumes "row \<in> set (table_rows table)"
  shows "row \<noteq> []" and "\<forall>c\<in>set row. \<forall>e. unescaped_pipes e c = 0"
proof -
  from assms show "row \<noteq> []" by (simp add: table_rows_def)
  from assms obtain tr where "row = row_cells tr" by (auto simp: table_rows_def)
  then show "\<forall>c\<in>set row. \<forall>e. unescaped_pipes e c = 0"
    by (auto simp: row_cells_def unescaped_pipes_escape)
qed

lemma pad_row_cells:
  assumes "\<forall>c\<in>set row. \<forall>e. unescaped_pipes e c = 0"
  shows "\<forall>c\<in>set (pad_row n row). \<forall>e. unescaped_pipes e c = 0"
  using assms by (auto simp: pad_row_def)

lemma length_pad_row: "length (pad_row n row) = max n (length row)"
  by (simp add: pad_row_def)

text \<open>
  Claim C9, as stated, fails: a row longer than the header is rendered with all its
  cells, so the rendered rows need not have equal column counts. In \<open>table_wide\<close> the
  header has one column and the second row two.
\<close>

theorem table_long_row_not_cut:
  "table_to_markdown table_wide = ''| a |'' @ [CHR 0x0A] @ ''| --- |'' @ [CHR 0x0A] @ ''| b | c |'' \<and>
   map column_count (md_lines (table_rows table_wide)) = [1, 1, 2]"
  by code_simp

text \<open>
  Claim C9, amended. For a table with at least one row that has cells, the output is the
  header line, a separator line and one line for each further row, joined by line breaks.
  The header and the separator have the header's column count. In every cell each pipe
  follows a backslash. A row shorter than the header is padded on the right with empty
  cells; a rendered row has the larger of the header's and its own column count, so all
  rendered rows have equal column counts exactly when no row is longer than the header.
\<close>

theorem table_to_markdown_layout:
  assumes "table_rows table = header # data"
  shows "table_to_markdown table =
           join [CHR 0x0A]
             (md_line header # md_line (replicate (length header) ''---'') #
              map (\<lambda>row. md_line (pad_row (length header) row)) data) \<and>
         column_count (md_line header) = length header \<and>
         column_count (md_line (replicate (length header) ''---'')) = length header \<and>
         (\<forall>row\<in>set (header # data). \<forall>c\<in>set row. unescaped_pipes False c = 0) \<and>
         (\<forall>row\<in>set data.
            pad_row (length header) row = row @ replicate (length header - length row) [] \<and>
            column_count (md_line (pad_row (length header) row))
              = max (length header) (length row))"
proof (intro conjI ballI)
  show "table_to_markdown table =
           join [CHR 0x0A]
             (md_line header # md_line (replicate (length header) ''---'') #
              map (\<lambda>row. md_line (pad_row (length header) row)) data)"
    using assms by (simp add: table_to_markdown_def md_lines_def)
next
  have h: "header \<in> set (table_rows table)" using assms by simp
  from table_rows_cells [OF h] show "column_count (md_line header) = length header"
    by (rule column_count_md_line)
  from table_rows_cells(1) [OF h]
  show "column_count (md_line (replicate (length header) ''---'')) = length header"
    using column_count_md_line [of "replicate (length header) ''---''"] by simp
next
  fix row c
  assume "row \<in> set (header # data)" and c: "c \<in> set row"
  with assms have "row \<in> set (table_rows table)" by simp
  from table_rows_cells(2) [OF this] c show "unescaped_pipes False c = 0" by blast
next
  fix row
  assume "row \<in> set data"
  show "pad_row (length header) row = row @ replicate (length header - length row) []"
    by (simp add: pad_row_def)
next
  fix row
  assume "row \<in> set data"
  with assms have r: "row \<in> set (table_rows table)" by simp
  from table_rows_cells(1) [OF r] have "pad_row (length header) row \<noteq> []"
    by (simp add: pad_row_def)
  moreover from table_rows_cells(2) [OF r]
  have "\<forall>c\<in>set (pad_row (length header) row). \<forall>e. unescaped_pipes e c = 0"
    by (rule pad_row_cells)
  ultimately have "column_count (md_line (pad_row (length header) row))
      = length (pad_row (length header) row)"
    by (rule column_count_md_line)
  then show "column_count (md_line (pad_row (length header) row))
      = max (length header) (length row)"
    by (simp only: length_pad_row)
qed

theorem table_to_markdown_layout_witness:
  "table_rows table_pipe = [[CHR ''a'', CHR 0x5C, CHR ''|'', CHR ''b''], ''c''] # [[''x'']] \<and>
   table_to_markdown table_pipe =
     [CHR ''|'', CHR '' '', CHR ''a'', CHR 0x5C, CHR ''|'', CHR ''b''] @ '' | c |'' @ [CHR 0x0A] @
     ''| --- | --- |'' @ [CHR 0x0A] @ ''| x |  |'' \<and>
   column_count (md_line (pad_row 2 [''x''])) = 2"
proof -
  have h: "table_rows table_pipe = [[CHR ''a'', CHR 0x5C, CHR ''|'', CHR ''b''], ''c''] # [[''x'']]"
    by code_simp
  note t = table_to_markdown_layout [OF h]
  from t have 1: "table_to_markdown table_pipe =
     [CHR ''|'', CHR '' '', CHR ''a'', CHR 0x5C, CHR ''|'', CHR ''b''] @ '' | c |'' @ [CHR 0x0A] @
     ''| --- | --- |'' @ [CHR 0x0A] @ ''| x |  |''"
    by (simp add: md_line_def pad_row_def)
  from t have "\<forall>row\<in>set [[''x'']].
      column_count (md_line (pad_row (length [[CHR ''a'', CHR 0x5C, CHR ''|'', CHR ''b''], ''c'']) row))
        = max (length [[CHR ''a'', CHR 0x5C, CHR ''|'', CHR ''b''], ''c'']) (length row)"
    by blast
  then have "column_count (md_line (pad_row (length [[CHR ''a'', CHR 0x5C, CHR ''|'', CHR ''b''], ''c'']) [''x'']))
        = max (length [[CHR ''a'', CHR 0x5C, CHR ''|'', CHR ''b''], ''c'']) (length [''x''])"
    by (rule bspec) simp
  moreover have "length [[CHR ''a'', CHR 0x5C, CHR ''|'', CHR ''b''], ''c''] = 2"
    "max (2::nat) (length [''x'']) = 2" by simp_all
  ultimately have 2: "column_count (md_line (pad_row 2 [''x''])) = 2" by (simp only:)
  from h 1 2 show ?thesis by blast
qed

end
